theory Spec2Isabelle
  imports Complex_Main "HOL-Library.Multiset"
begin

section \<open>The values of the runtime\<close>

text \<open>
  \<^verbatim>\<open>defiant.ts\<close> works on arbitrary values of the language (\<^verbatim>\<open>unknown\<close>): primitives
  and references to objects that live in a store. Reference identity, freezing, shallow
  copies and later mutation are all observable, so objects are kept in an explicit heap
  and a value of object type is the address of its object.
\<close>

type_synonym addr = nat

text \<open>
  A number is a double. Only equality of numbers is used by the module, so a finite
  double other than negative zero is represented by the rational it denotes
  (\<open>Fin 0\<close> is \<^verbatim>\<open>+0\<close>); \<^verbatim>\<open>NaN\<close>, \<^verbatim>\<open>-0\<close> and the infinities are values of their own.
\<close>

datatype number = NaN | NegZero | PosInfinity | NegInfinity | Fin rat

datatype val =
    Undefined
  | Null
  | Boolean bool
  | Number number
  | Str string
  | BigInt int
  | Symbol nat
  | Ref addr

text \<open>
  A property key is a string. The keys that are canonical array indices
  (\<^verbatim>\<open>"0"\<close>, \<^verbatim>\<open>"1"\<close>, ...) are represented by the number they denote, every other
  key by its characters.
\<close>

datatype pkey = Index nat | Name string

text \<open>
  What the module can observe of an object: whether it is an array exotic object
  (\<^verbatim>\<open>Array.isArray\<close>), a callable one (\<^verbatim>\<open>typeof\<close> is \<^verbatim>\<open>"function"\<close>) or an ordinary
  one; its prototype (the address of an object, or \<open>None\<close> for \<^verbatim>\<open>null\<close>); for an
  array its \<^verbatim>\<open>length\<close>; its own enumerable string-keyed data properties, as the list
  that \<^verbatim>\<open>Object.keys\<close> walks; and whether it has been frozen.
\<close>

datatype objclass = ArrayObj | FunctionObj | OrdinaryObj

record obj =
  cls :: objclass
  proto :: "addr option"
  len :: nat
  props :: "(pkey \<times> val) list"
  frozen :: bool

text \<open>The store: the object at every address, and the next address to allocate.\<close>

record heap =
  objs :: "addr \<Rightarrow> obj"
  next_addr :: addr

text \<open>The intrinsic prototypes of the realm live at fixed addresses.\<close>

definition Object_prototype :: addr where
  "Object_prototype = 0"

definition Array_prototype :: addr where
  "Array_prototype = 1"

definition Function_prototype :: addr where
  "Function_prototype = 2"

section \<open>Operators and built-ins used by the module\<close>

text \<open>\<^verbatim>\<open>Number::equal\<close>: \<^verbatim>\<open>NaN\<close> equals nothing, the two zeros equal each other.\<close>

definition is_zero :: "number \<Rightarrow> bool" where
  "is_zero a = (a = NegZero \<or> a = Fin 0)"

definition number_equal :: "number \<Rightarrow> number \<Rightarrow> bool" where
  "number_equal a b = (a \<noteq> NaN \<and> b \<noteq> NaN \<and> (a = b \<or> (is_zero a \<and> is_zero b)))"

text \<open>
  \<^verbatim>\<open>x === y\<close>: numbers by \<^verbatim>\<open>Number::equal\<close>; every other pair of values is equal
  exactly when both sides are the same primitive or the same reference.
\<close>

fun strict_equal :: "val \<Rightarrow> val \<Rightarrow> bool" where
  "strict_equal (Number a) (Number b) = number_equal a b"
| "strict_equal x y = (x = y)"

text \<open>\<^verbatim>\<open>value != null\<close> is false for \<^verbatim>\<open>null\<close> and for \<^verbatim>\<open>undefined\<close> only.\<close>

definition loosely_null :: "val \<Rightarrow> bool" where
  "loosely_null v = (v = Null \<or> v = Undefined)"

definition typeof :: "heap \<Rightarrow> val \<Rightarrow> string" where
  "typeof h v =
     (case v of
        Undefined \<Rightarrow> ''undefined''
      | Null \<Rightarrow> ''object''
      | Boolean b \<Rightarrow> ''boolean''
      | Number a \<Rightarrow> ''number''
      | Str s \<Rightarrow> ''string''
      | BigInt i \<Rightarrow> ''bigint''
      | Symbol s \<Rightarrow> ''symbol''
      | Ref a \<Rightarrow> (if cls (objs h a) = FunctionObj then ''function'' else ''object''))"

definition Number_isNaN :: "val \<Rightarrow> bool" where
  "Number_isNaN v = (v = Number NaN)"

definition Array_isArray :: "heap \<Rightarrow> val \<Rightarrow> bool" where
  "Array_isArray h v = (case v of Ref a \<Rightarrow> cls (objs h a) = ArrayObj | _ \<Rightarrow> False)"

text \<open>
  \<^verbatim>\<open>Object.isFrozen\<close>, \<^verbatim>\<open>Object.getPrototypeOf\<close>, \<^verbatim>\<open>Object.keys\<close>, \<^verbatim>\<open>x.length\<close> and
  \<^verbatim>\<open>x[key]\<close>. The module applies the last four to objects only; a primitive is given
  the value the runtime gives it where that is simple (a primitive counts as frozen)
  and a neutral one otherwise. Reading a key that is not an own property (a hole of an
  array) yields \<^verbatim>\<open>undefined\<close>.
\<close>

definition Object_isFrozen :: "heap \<Rightarrow> val \<Rightarrow> bool" where
  "Object_isFrozen h v = (case v of Ref a \<Rightarrow> frozen (objs h a) | _ \<Rightarrow> True)"

definition Object_getPrototypeOf :: "heap \<Rightarrow> val \<Rightarrow> val" where
  "Object_getPrototypeOf h v =
     (case v of
        Ref a \<Rightarrow> (case proto (objs h a) of Some p \<Rightarrow> Ref p | None \<Rightarrow> Null)
      | _ \<Rightarrow> Null)"

definition Object_keys :: "heap \<Rightarrow> val \<Rightarrow> pkey list" where
  "Object_keys h v = (case v of Ref a \<Rightarrow> map fst (props (objs h a)) | _ \<Rightarrow> [])"

definition length_of :: "heap \<Rightarrow> val \<Rightarrow> nat" where
  "length_of h v = (case v of Ref a \<Rightarrow> len (objs h a) | _ \<Rightarrow> 0)"

definition get :: "heap \<Rightarrow> val \<Rightarrow> pkey \<Rightarrow> val" where
  "get h v k =
     (case v of
        Ref a \<Rightarrow> (case map_of (props (objs h a)) k of Some w \<Rightarrow> w | None \<Rightarrow> Undefined)
      | _ \<Rightarrow> Undefined)"

section \<open>Deep equality\<close>

text \<open>\<^verbatim>\<open>_isObject\<close>: \<^verbatim>\<open>value != null && typeof value === "object"\<close>.\<close>

definition isObject_inner :: "heap \<Rightarrow> val \<Rightarrow> bool" where
  "isObject_inner h v = (\<not> loosely_null v \<and> typeof h v = ''object'')"

text \<open>
  The two loops of \<^verbatim>\<open>_isEqual\<close> have the same shape: run the body on each item in
  turn, return \<^verbatim>\<open>false\<close> as soon as one body says so, \<^verbatim>\<open>true\<close> after the last.
  A body that does not return (\<open>None\<close>) stops the loop without a result.
\<close>

fun for_each :: "('a \<Rightarrow> bool option) \<Rightarrow> 'a list \<Rightarrow> bool option" where
  "for_each body [] = Some True"
| "for_each body (a # as) =
     (case body a of
        None \<Rightarrow> None
      | Some ok \<Rightarrow> if ok then for_each body as else Some False)"

text \<open>
  \<^verbatim>\<open>_isEqual\<close>. The recursion follows references through the heap and has no cycle
  detection, so it is defined with fuel: the first argument bounds the depth of nested
  calls, and \<open>None\<close> is a call whose nesting exceeds it (on a cyclic structure: every
  amount of fuel is exceeded, the stack of the runtime overflows).
\<close>

fun isEqual_inner :: "nat \<Rightarrow> heap \<Rightarrow> val \<Rightarrow> val \<Rightarrow> bool option" where
  "isEqual_inner 0 h x y = None"
| "isEqual_inner (Suc n) h x y =
     (if strict_equal x y \<or> (Number_isNaN x \<and> Number_isNaN y) then Some True
      else if Array_isArray h x \<and> Array_isArray h y then
        (if length_of h x \<noteq> length_of h y then Some False
         else if length_of h x = 0 then Some True
         else for_each
                (\<lambda>i. isEqual_inner n h (get h x (Index i)) (get h y (Index i)))
                [0 ..< length_of h x])
      else if isObject_inner h x \<and> isObject_inner h y then
        (if \<not> strict_equal (Object_getPrototypeOf h x) (Object_getPrototypeOf h y)
         then Some False
         else
           let xKeys = Object_keys h x; yKeys = Object_keys h y in
           if length xKeys \<noteq> length yKeys then Some False
           else if length xKeys = 0 then Some True
           else for_each
                  (\<lambda>key. if key \<notin> set yKeys then Some False
                         else isEqual_inner n h (get h x key) (get h y key))
                  xKeys)
      else Some False)"

text \<open>\<^verbatim>\<open>Tuple.isEqual\<close> (and \<^verbatim>\<open>Record.isEqual\<close>, the same function) calls \<^verbatim>\<open>_isEqual\<close>.\<close>

definition Tuple_isEqual :: "nat \<Rightarrow> heap \<Rightarrow> val \<Rightarrow> val \<Rightarrow> bool option" where
  "Tuple_isEqual fuel h x y = isEqual_inner fuel h x y"

text \<open>The call \<^verbatim>\<open>isEqual(x, y)\<close> returns \<open>b\<close>: some depth of nesting is enough for it.\<close>

definition returns :: "heap \<Rightarrow> val \<Rightarrow> val \<Rightarrow> bool \<Rightarrow> bool" where
  "returns h x y b = (\<exists>fuel. Tuple_isEqual fuel h x y = Some b)"

section \<open>Allocation, freezing and the constructors\<close>

definition alloc :: "heap \<Rightarrow> obj \<Rightarrow> val \<times> heap" where
  "alloc h ob =
     (Ref (next_addr h),
      h\<lparr>objs := (objs h)(next_addr h := ob), next_addr := Suc (next_addr h)\<rparr>)"

text \<open>\<^verbatim>\<open>Object.freeze\<close> marks an object and returns its argument.\<close>

definition Object_freeze :: "heap \<Rightarrow> val \<Rightarrow> val \<times> heap" where
  "Object_freeze h v =
     (case v of
        Ref a \<Rightarrow> (v, h\<lparr>objs := (objs h)(a := (objs h a)\<lparr>frozen := True\<rparr>)\<rparr>)
      | _ \<Rightarrow> (v, h))"

text \<open>
  A rest parameter \<^verbatim>\<open>...values\<close> (and an array literal) is a fresh, dense, unfrozen
  array holding the arguments in order.
\<close>

definition new_array :: "heap \<Rightarrow> val list \<Rightarrow> val \<times> heap" where
  "new_array h vs =
     alloc h \<lparr>cls = ArrayObj, proto = Some Array_prototype, len = length vs,
              props = map (\<lambda>i. (Index i, vs ! i)) [0 ..< length vs], frozen = False\<rparr>"

text \<open>\<^verbatim>\<open>Tuple(...values)\<close> is \<^verbatim>\<open>Object.freeze(values)\<close>; \<^verbatim>\<open>Tuple.of\<close> calls it.\<close>

definition Tuple :: "heap \<Rightarrow> val list \<Rightarrow> val \<times> heap" where
  "Tuple h vs = (let (arr, h1) = new_array h vs in Object_freeze h1 arr)"

definition Tuple_of :: "heap \<Rightarrow> val list \<Rightarrow> val \<times> heap" where
  "Tuple_of h vs = Tuple h vs"

section \<open>Properties, records and copies\<close>

text \<open>The object literal \<^verbatim>\<open>{}\<close>: a fresh ordinary object without properties.\<close>

definition new_object :: "heap \<Rightarrow> val \<times> heap" where
  "new_object h =
     alloc h \<lparr>cls = OrdinaryObj, proto = Some Object_prototype, len = 0, props = [],
              frozen = False\<rparr>"

text \<open>
  \<^verbatim>\<open>Object.create(proto)\<close>: a fresh ordinary object with the given prototype. A
  function expression: a fresh callable object (what a function owns from the start,
  its \<^verbatim>\<open>length\<close>, \<^verbatim>\<open>name\<close> and \<^verbatim>\<open>prototype\<close>, is not enumerable).
\<close>

definition Object_create :: "heap \<Rightarrow> addr option \<Rightarrow> val \<times> heap" where
  "Object_create h p =
     alloc h \<lparr>cls = OrdinaryObj, proto = p, len = 0, props = [], frozen = False\<rparr>"

definition new_function :: "heap \<Rightarrow> val \<times> heap" where
  "new_function h =
     alloc h \<lparr>cls = FunctionObj, proto = Some Function_prototype, len = 0, props = [],
              frozen = False\<rparr>"

text \<open>
  Writing a data property into a property list: an existing key keeps its place and
  takes the new value, a new key is added.
\<close>

fun define_prop :: "pkey \<Rightarrow> val \<Rightarrow> (pkey \<times> val) list \<Rightarrow> (pkey \<times> val) list" where
  "define_prop k v [] = [(k, v)]"
| "define_prop k v (p # ps) = (if fst p = k then (k, v) # ps else p # define_prop k v ps)"

text \<open>
  \<^verbatim>\<open>CreateDataProperty\<close>: defining an own data property on the object at an address.
  A frozen object rejects it (the store is unchanged). Writing an index at or beyond
  the length of an array extends the length.
\<close>

definition create_data_property :: "heap \<Rightarrow> addr \<Rightarrow> pkey \<Rightarrow> val \<Rightarrow> heap" where
  "create_data_property h a k v =
     (let ob = objs h a in
      if frozen ob then h
      else h\<lparr>objs := (objs h)(a := ob\<lparr>
             props := define_prop k v (props ob),
             len := (case k of
                       Index i \<Rightarrow> if cls ob = ArrayObj then max (len ob) (Suc i) else len ob
                     | Name s \<Rightarrow> len ob)\<rparr>)\<rparr>)"

text \<open>
  The prototype chain: \<open>on_chain n h p q\<close> says that \<open>q\<close> is among the first \<open>n\<close> objects
  of the chain that starts at \<open>p\<close>. A chain is no longer than the number of objects
  allocated.
\<close>

fun on_chain :: "nat \<Rightarrow> heap \<Rightarrow> addr option \<Rightarrow> addr \<Rightarrow> bool" where
  "on_chain 0 h p q = False"
| "on_chain (Suc n) h None q = False"
| "on_chain (Suc n) h (Some a) q = (a = q \<or> on_chain n h (proto (objs h a)) q)"

definition proto_key :: pkey where
  "proto_key = Name ''__proto__''"

text \<open>
  Where an assignment to a key of an object finds the property: on the object itself
  or on the nearest object of its prototype chain that owns the key. \<^verbatim>\<open>Object.prototype\<close>
  owns the accessor \<^verbatim>\<open>__proto__\<close>. The search starts at \<open>p\<close> and visits at most \<open>n\<close>
  objects.
\<close>

datatype found = DataProperty addr | ProtoAccessor | NotFound

fun find_property :: "nat \<Rightarrow> heap \<Rightarrow> addr option \<Rightarrow> pkey \<Rightarrow> found" where
  "find_property 0 h p k = NotFound"
| "find_property (Suc n) h None k = NotFound"
| "find_property (Suc n) h (Some a) k =
     (if k \<in> fst ` set (props (objs h a)) then DataProperty a
      else if a = Object_prototype \<and> k = proto_key then ProtoAccessor
      else find_property n h (proto (objs h a)) k)"

text \<open>A rejected write is a \<^verbatim>\<open>TypeError\<close>.\<close>

datatype error = TypeError

text \<open>
  The setter of \<^verbatim>\<open>__proto__\<close> on the object at an address: a value that is neither an
  object nor \<^verbatim>\<open>null\<close> is ignored; the prototype the object already has is accepted
  as it is; a frozen object and \<^verbatim>\<open>Object.prototype\<close> itself refuse another prototype,
  and so does an object that the new prototype inherits from (the chain would be
  cyclic); otherwise the object takes the new prototype.
\<close>

definition set_prototype :: "heap \<Rightarrow> addr \<Rightarrow> val \<Rightarrow> error + heap" where
  "set_prototype h a v =
     (let ob = objs h a;
          change = (\<lambda>np.
            if np = proto ob then Inr h
            else if frozen ob \<or> a = Object_prototype then Inl TypeError
            else if (case np of
                       Some p \<Rightarrow> p = a \<or> on_chain (next_addr h) h (proto (objs h p)) a
                     | None \<Rightarrow> False) then Inl TypeError
            else Inr (h\<lparr>objs := (objs h)(a := ob\<lparr>proto := np\<rparr>)\<rparr>))
      in case v of Ref p \<Rightarrow> change (Some p) | Null \<Rightarrow> change None | _ \<Rightarrow> Inr h)"

text \<open>
  The assignment \<^verbatim>\<open>o[k] = v\<close> on the object at an address (the \<^verbatim>\<open>[[Set]]\<close> of the
  runtime, as strict code and the built-ins perform it). The property is looked up on
  the object and along its prototype chain. A data property found on a frozen object
  is read-only and the assignment is rejected; otherwise the value is written as an
  own data property of the object, which a frozen object rejects. The accessor
  \<^verbatim>\<open>__proto__\<close> runs its setter. Of the properties that are not enumerable the model
  knows this accessor only.
\<close>

definition set_property :: "heap \<Rightarrow> addr \<Rightarrow> pkey \<Rightarrow> val \<Rightarrow> error + heap" where
  "set_property h a k v =
     (case find_property (Suc (next_addr h)) h (Some a) k of
        DataProperty p \<Rightarrow>
          if frozen (objs h p) \<or> frozen (objs h a) then Inl TypeError
          else Inr (create_data_property h a k v)
      | ProtoAccessor \<Rightarrow> set_prototype h a v
      | NotFound \<Rightarrow>
          if frozen (objs h a) then Inl TypeError
          else Inr (create_data_property h a k v))"

text \<open>\<^verbatim>\<open>delete o[k]\<close>: a frozen object keeps its properties.\<close>

definition delete_property :: "heap \<Rightarrow> addr \<Rightarrow> pkey \<Rightarrow> heap" where
  "delete_property h a k =
     (let ob = objs h a in
      if frozen ob then h
      else h\<lparr>objs := (objs h)(a := ob\<lparr>props := filter (\<lambda>p. fst p \<noteq> k) (props ob)\<rparr>)\<rparr>)"

text \<open>
  \<^verbatim>\<open>Object.assign(target, source)\<close>: the own enumerable keys of the source, each read
  from the source and assigned to the target in turn (an assignment, so the key
  \<^verbatim>\<open>__proto__\<close> of a source reaches the setter of the target); the first rejected
  assignment ends the call with its \<^verbatim>\<open>TypeError\<close>; otherwise the target is returned.
  The module passes an object as the source (the parameter of \<^verbatim>\<open>Record\<close> has type
  \<^verbatim>\<open>object\<close>).
\<close>

fun assign_keys :: "heap \<Rightarrow> addr \<Rightarrow> val \<Rightarrow> pkey list \<Rightarrow> error + heap" where
  "assign_keys h t source [] = Inr h"
| "assign_keys h t source (key # keys) =
     (case set_property h t key (get h source key) of
        Inl e \<Rightarrow> Inl e
      | Inr h1 \<Rightarrow> assign_keys h1 t source keys)"

definition Object_assign :: "heap \<Rightarrow> val \<Rightarrow> val \<Rightarrow> error + val \<times> heap" where
  "Object_assign h target source =
     (case target of
        Ref t \<Rightarrow>
          (case assign_keys h t source (Object_keys h source) of
             Inl e \<Rightarrow> Inl e
           | Inr h1 \<Rightarrow> Inr (target, h1))
      | _ \<Rightarrow> Inr (target, h))"

text \<open>
  \<^verbatim>\<open>Object.fromEntries(entries)\<close>: a fresh object, and each pair of the iterable
  defined on it as an own data property in turn. The iterable is the list of the pairs
  it yields.
\<close>

definition Object_fromEntries :: "heap \<Rightarrow> (pkey \<times> val) list \<Rightarrow> val \<times> heap" where
  "Object_fromEntries h entries =
     (case new_object h of
        (Ref t, h1) \<Rightarrow>
          (Ref t, foldl (\<lambda>h2 (k, v). create_data_property h2 t k v) h1 entries)
      | (v, h1) \<Rightarrow> (v, h1))"

text \<open>
  \<^verbatim>\<open>Array.from(value)\<close> on an array: a fresh unfrozen array of the same length
  holding \<^verbatim>\<open>value[0]\<close>, \<^verbatim>\<open>value[1]\<close>, ...
\<close>

definition Array_from :: "heap \<Rightarrow> val \<Rightarrow> val \<times> heap" where
  "Array_from h v = new_array h (map (\<lambda>i. get h v (Index i)) [0 ..< length_of h v])"

text \<open>\<^verbatim>\<open>Tuple.toArray(value)\<close> is \<^verbatim>\<open>Array.from(value)\<close>.\<close>

definition Tuple_toArray :: "heap \<Rightarrow> val \<Rightarrow> val \<times> heap" where
  "Tuple_toArray h v = Array_from h v"

text \<open>
  \<^verbatim>\<open>Record(O)\<close> is \<^verbatim>\<open>Object.freeze(Object.assign({}, O))\<close>; \<^verbatim>\<open>Record.fromObject\<close>
  calls it.
\<close>

definition Record :: "heap \<Rightarrow> val \<Rightarrow> error + val \<times> heap" where
  "Record h ob =
     (case new_object h of (e, h1) \<Rightarrow>
      case Object_assign h1 e ob of
        Inl err \<Rightarrow> Inl err
      | Inr (t, h2) \<Rightarrow> Inr (Object_freeze h2 t))"

definition Record_fromObject :: "heap \<Rightarrow> val \<Rightarrow> error + val \<times> heap" where
  "Record_fromObject h ob = Record h ob"

text \<open>\<^verbatim>\<open>Record.fromEntries(entries)\<close> is \<^verbatim>\<open>Object.freeze(Object.fromEntries(entries))\<close>.\<close>

definition Record_fromEntries :: "heap \<Rightarrow> (pkey \<times> val) list \<Rightarrow> val \<times> heap" where
  "Record_fromEntries h entries =
     (let (ob, h1) = Object_fromEntries h entries in Object_freeze h1 ob)"

text \<open>
  \<^verbatim>\<open>Record.isRecord(value)\<close>:
  \<^verbatim>\<open>value != null && typeof value === "object" && Object.isFrozen(value)\<close>.
\<close>

definition Record_isRecord :: "heap \<Rightarrow> val \<Rightarrow> bool" where
  "Record_isRecord h v =
     (\<not> loosely_null v \<and> typeof h v = ''object'' \<and> Object_isFrozen h v)"

section \<open>Notions used to state the properties\<close>

text \<open>
  A value is non-cyclic when the objects reachable from it through property values
  nest to a bounded depth: \<open>depth_le d h v\<close> says that at most \<open>d\<close> objects are nested
  under \<open>v\<close>. A primitive has depth \<open>0\<close>; a reference into a cycle has no depth. (A
  program holds finitely many objects, so its non-cyclic values are the values of
  bounded depth.)
\<close>

fun depth_le :: "nat \<Rightarrow> heap \<Rightarrow> val \<Rightarrow> bool" where
  "depth_le 0 h v = (case v of Ref a \<Rightarrow> False | _ \<Rightarrow> True)"
| "depth_le (Suc d) h v =
     (case v of
        Ref a \<Rightarrow> list_all (depth_le d h) (map snd (props (objs h a)))
      | _ \<Rightarrow> True)"

text \<open>An object has each of its keys once.\<close>

definition distinct_keys :: "heap \<Rightarrow> bool" where
  "distinct_keys h = (\<forall>a. distinct (map fst (props (objs h a))))"

text \<open>
  Two heaps that hold the same objects, with the same properties, but may list the
  properties of an object in a different order.
\<close>

definition same_up_to_key_order :: "heap \<Rightarrow> heap \<Rightarrow> bool" where
  "same_up_to_key_order h h' =
     (\<forall>a. cls (objs h a) = cls (objs h' a) \<and> proto (objs h a) = proto (objs h' a)
        \<and> len (objs h a) = len (objs h' a) \<and> frozen (objs h a) = frozen (objs h' a)
        \<and> mset (props (objs h a)) = mset (props (objs h' a)))"

definition is_primitive :: "val \<Rightarrow> bool" where
  "is_primitive v = (case v of Ref a \<Rightarrow> False | _ \<Rightarrow> True)"

text \<open>
  Later changes to an object by its holder: assignments and deletions of keys. A
  rejected assignment leaves the store as it is (silently, or with a \<^verbatim>\<open>TypeError\<close>
  in strict code).
\<close>

datatype mutation = Assign pkey val | Delete pkey

fun mutate :: "heap \<Rightarrow> addr \<Rightarrow> mutation \<Rightarrow> heap" where
  "mutate h a (Assign k v) = (case set_property h a k v of Inr h1 \<Rightarrow> h1 | Inl e \<Rightarrow> h)"
| "mutate h a (Delete k) = delete_property h a k"

definition mutate_all :: "heap \<Rightarrow> addr \<Rightarrow> mutation list \<Rightarrow> heap" where
  "mutate_all h a ms = foldl (\<lambda>h1 m. mutate h1 a m) h ms"

text \<open>
  A realm before the program has allocated anything: \<^verbatim>\<open>Object.prototype\<close>,
  \<^verbatim>\<open>Array.prototype\<close> (itself an array) and \<^verbatim>\<open>Function.prototype\<close> (itself
  callable) at their addresses, without enumerable properties.
\<close>

definition blank :: obj where
  "blank = \<lparr>cls = OrdinaryObj, proto = None, len = 0, props = [], frozen = False\<rparr>"

definition realm :: heap where
  "realm =
     \<lparr>objs = (\<lambda>a. blank)
        (Object_prototype := blank,
         Array_prototype := blank\<lparr>cls := ArrayObj, proto := Some Object_prototype\<rparr>,
         Function_prototype := blank\<lparr>cls := FunctionObj, proto := Some Object_prototype\<rparr>),
      next_addr = 3\<rparr>"

text \<open>
  \<^verbatim>\<open>Object.prototype\<close> as the realm makes it: without enumerable properties, at the
  end of the prototype chain, not frozen.
\<close>

definition standard_Object_prototype :: "heap \<Rightarrow> bool" where
  "standard_Object_prototype h =
     (props (objs h Object_prototype) = [] \<and> proto (objs h Object_prototype) = None
      \<and> \<not> frozen (objs h Object_prototype))"

text \<open>
  An object literal \<^verbatim>\<open>{k1: v1, ...}\<close>: a fresh object, and each property written into
  it in turn.
\<close>

definition object_literal :: "heap \<Rightarrow> (pkey \<times> val) list \<Rightarrow> val \<times> heap" where
  "object_literal h ps = Object_fromEntries h ps"

text \<open>
  The values compared by the unit test of the module:
  \<^verbatim>\<open>Tuple.of(4, 5, Record.fromEntries([["a", 1], ["b", 2]]))\<close> and
  \<^verbatim>\<open>Tuple.of(4, 5, Record.fromObject({a: 1, b: 2}))\<close>, and the heap that holds them.
  (Were \<^verbatim>\<open>Record.fromObject\<close> to throw, the test would stop with the first value
  only; \<open>unit_test_eval\<close> below shows that it returns.)
\<close>

definition unit_test :: "val \<times> val \<times> heap" where
  "unit_test =
     (case Record_fromEntries realm
             [(Name ''a'', Number (Fin 1)), (Name ''b'', Number (Fin 2))] of (m1, h1) \<Rightarrow>
      case Tuple_of h1 [Number (Fin 4), Number (Fin 5), m1] of (t1, h2) \<Rightarrow>
      case object_literal h2
             [(Name ''a'', Number (Fin 1)), (Name ''b'', Number (Fin 2))] of (lit, h3) \<Rightarrow>
      case Record_fromObject h3 lit of
        Inl e \<Rightarrow> (t1, Undefined, h3)
      | Inr (m2, h4) \<Rightarrow>
          (case Tuple_of h4 [Number (Fin 4), Number (Fin 5), m2] of (t2, h5) \<Rightarrow>
             (t1, t2, h5)))"

text \<open>
  Further heaps used as concrete inputs. The first allocations of a program in the
  realm land at the addresses \<open>3\<close>, \<open>4\<close>, ...

  \<^item> \<open>two_objects\<close>: after \<^verbatim>\<open>{a: 1, b: 2}\<close> (at \<open>3\<close>) and \<^verbatim>\<open>{b: 2, a: 1}\<close> (at \<open>4\<close>);
    \<open>two_objects_reordered\<close> lists the keys of the first in the opposite order;
  \<^item> \<open>null_proto_heap\<close>: after \<^verbatim>\<open>{}\<close> (at \<open>3\<close>) and \<^verbatim>\<open>Object.create(null)\<close> (at \<open>4\<close>);
  \<^item> \<open>two_tuples\<close>: after \<^verbatim>\<open>Tuple.of(1, 2)\<close> (at \<open>3\<close>) and \<^verbatim>\<open>Tuple.of(1, 2, 3)\<close>
    (at \<open>4\<close>);
  \<^item> \<open>array_and_object\<close>: after \<^verbatim>\<open>[]\<close> (at \<open>3\<close>) and \<^verbatim>\<open>{}\<close> (at \<open>4\<close>);
  \<^item> \<open>mixed_heap\<close>: after \<^verbatim>\<open>[]\<close> (at \<open>3\<close>) and \<^verbatim>\<open>Object.create(Array.prototype)\<close>
    (at \<open>4\<close>);
  \<^item> \<open>one_object\<close>: after \<^verbatim>\<open>{a: 1, b: 2}\<close> (at \<open>3\<close>);
  \<^item> \<open>nested_heap\<close>: after \<^verbatim>\<open>[7]\<close> (at \<open>3\<close>);
  \<^item> \<open>frozen_function\<close>: after \<^verbatim>\<open>Object.freeze(function () {})\<close> (at \<open>3\<close>);
  \<^item> \<open>array_likes\<close>: after \<^verbatim>\<open>[1]\<close> (at \<open>3\<close>), \<^verbatim>\<open>Object.create(Array.prototype)\<close>
    (at \<open>4\<close>) and a second \<^verbatim>\<open>Object.create(Array.prototype)\<close> (at \<open>5\<close>) that is then
    assigned \<^verbatim>\<open>1\<close> at the key \<^verbatim>\<open>0\<close>;
  \<^item> \<open>parsed_object\<close>: after \<^verbatim>\<open>JSON.parse('{"__proto__": 5, "a": 1}')\<close> (at \<open>3\<close>), an
    object with the two own data properties \<^verbatim>\<open>__proto__\<close> and \<^verbatim>\<open>a\<close>;
  \<^item> \<open>recorded_object\<close> and \<open>recorded_parsed_object\<close>: \<open>one_object\<close> and \<open>parsed_object\<close>
    after \<^verbatim>\<open>Record(O)\<close> for the object \<open>O\<close> at \<open>3\<close> (the record is at \<open>4\<close>).
\<close>

definition two_objects :: heap where
  "two_objects =
     snd (object_literal
            (snd (object_literal realm
                    [(Name ''a'', Number (Fin 1)), (Name ''b'', Number (Fin 2))]))
            [(Name ''b'', Number (Fin 2)), (Name ''a'', Number (Fin 1))])"

definition two_objects_reordered :: heap where
  "two_objects_reordered =
     two_objects\<lparr>objs := (objs two_objects)
       (3 := (objs two_objects 3)\<lparr>props := rev (props (objs two_objects 3))\<rparr>)\<rparr>"

definition null_proto_heap :: heap where
  "null_proto_heap = snd (Object_create (snd (new_object realm)) None)"

definition two_tuples :: heap where
  "two_tuples =
     snd (Tuple_of (snd (Tuple_of realm [Number (Fin 1), Number (Fin 2)]))
            [Number (Fin 1), Number (Fin 2), Number (Fin 3)])"

definition array_and_object :: heap where
  "array_and_object = snd (new_object (snd (new_array realm [])))"

definition mixed_heap :: heap where
  "mixed_heap = snd (Object_create (snd (new_array realm [])) (Some Array_prototype))"

definition one_object :: heap where
  "one_object =
     snd (object_literal realm [(Name ''a'', Number (Fin 1)), (Name ''b'', Number (Fin 2))])"

definition nested_heap :: heap where
  "nested_heap = snd (new_array realm [Number (Fin 7)])"

definition frozen_function :: heap where
  "frozen_function = (case new_function realm of (f, h1) \<Rightarrow> snd (Object_freeze h1 f))"

definition array_likes :: heap where
  "array_likes =
     mutate
       (snd (Object_create
          (snd (Object_create (snd (new_array realm [Number (Fin 1)])) (Some Array_prototype)))
          (Some Array_prototype)))
       5 (Assign (Index 0) (Number (Fin 1)))"

definition parsed_object :: heap where
  "parsed_object =
     snd (Object_fromEntries realm [(proto_key, Number (Fin 5)), (Name ''a'', Number (Fin 1))])"

definition recorded_object :: heap where
  "recorded_object =
     (case Record one_object (Ref 3) of Inr (m, h) \<Rightarrow> h | Inl e \<Rightarrow> one_object)"

definition recorded_parsed_object :: heap where
  "recorded_parsed_object =
     (case Record parsed_object (Ref 3) of Inr (m, h) \<Rightarrow> h | Inl e \<Rightarrow> parsed_object)"

section \<open>The loop\<close>

lemma for_each_True: "for_each f xs = Some True \<longleftrightarrow> (\<forall>a\<in>set xs. f a = Some True)"
  by (induction xs) (auto split: option.splits)

lemma for_each_False:
  "for_each f xs = Some False \<longleftrightarrow>
     (\<exists>i<length xs. f (xs ! i) = Some False \<and> (\<forall>j<i. f (xs ! j) = Some True))"
proof (induction xs)
  case Nil
  show ?case by simp
next
  case (Cons a as)
  show ?case
  proof (cases "f a")
    case None
    have "\<not> (\<exists>i<length (a # as). f ((a # as) ! i) = Some False
            \<and> (\<forall>j<i. f ((a # as) ! j) = Some True))"
    proof
      assume "\<exists>i<length (a # as). f ((a # as) ! i) = Some False
            \<and> (\<forall>j<i. f ((a # as) ! j) = Some True)"
      then obtain i where i: "f ((a # as) ! i) = Some False" "\<forall>j<i. f ((a # as) ! j) = Some True"
        by blast
      show False
      proof (cases i)
        case 0
        with i None show False by simp
      next
        case (Suc k)
        with i(2) have "f ((a # as) ! 0) = Some True" by blast
        with None show False by simp
      qed
    qed
    with None show ?thesis by simp
  next
    case (Some b)
    show ?thesis
    proof (cases b)
      case False
      with Some have "f ((a # as) ! 0) = Some False" by simp
      then have "\<exists>i<length (a # as). f ((a # as) ! i) = Some False
            \<and> (\<forall>j<i. f ((a # as) ! j) = Some True)"
        by (intro exI[of _ 0]) simp
      with Some False show ?thesis by simp
    next
      case True
      have "(\<exists>i<length (a # as). f ((a # as) ! i) = Some False
              \<and> (\<forall>j<i. f ((a # as) ! j) = Some True))
          \<longleftrightarrow> (\<exists>i<length as. f (as ! i) = Some False \<and> (\<forall>j<i. f (as ! j) = Some True))"
        (is "?L \<longleftrightarrow> ?R")
      proof
        assume ?L
        then obtain i where i: "i < length (a # as)" "f ((a # as) ! i) = Some False"
          "\<forall>j<i. f ((a # as) ! j) = Some True" by blast
        from i(2) Some True obtain k where k: "i = Suc k" by (cases i) auto
        have "\<forall>j<k. f (as ! j) = Some True"
        proof (intro allI impI)
          fix j assume "j < k"
          then have "Suc j < i" using k by simp
          with i(3) have "f ((a # as) ! Suc j) = Some True" by blast
          then show "f (as ! j) = Some True" by simp
        qed
        with i k show ?R by auto
      next
        assume ?R
        then obtain i where i: "i < length as" "f (as ! i) = Some False"
          "\<forall>j<i. f (as ! j) = Some True" by blast
        have "\<forall>j<Suc i. f ((a # as) ! j) = Some True"
        proof (intro allI impI)
          fix j assume "j < Suc i"
          then show "f ((a # as) ! j) = Some True"
            using i(3) Some True by (cases j) auto
        qed
        with i show ?L by (intro exI[of _ "Suc i"]) simp
      qed
      with Some True Cons.IH show ?thesis by simp
    qed
  qed
qed

lemma for_each_Some:
  "(\<And>a. a \<in> set xs \<Longrightarrow> \<exists>b. f a = Some b) \<Longrightarrow> \<exists>b. for_each f xs = Some b"
  by (induction xs) (auto split: option.splits)

lemma for_each_mono:
  "for_each f xs = Some b \<Longrightarrow> (\<And>a c. a \<in> set xs \<Longrightarrow> f a = Some c \<Longrightarrow> g a = Some c)
     \<Longrightarrow> for_each g xs = Some b"
proof (induction xs)
  case Nil
  then show ?case by simp
next
  case (Cons a as)
  from Cons.prems(1) obtain c where c: "f a = Some c" by (auto split: option.splits)
  then have g: "g a = Some c" using Cons.prems(2) by simp
  show ?case
  proof (cases c)
    case True
    with c Cons.prems(1) have "for_each f as = Some b" by simp
    then have "for_each g as = Some b" using Cons.IH Cons.prems(2) by simp
    with g True show ?thesis by simp
  next
    case False
    with c g Cons.prems(1) show ?thesis by simp
  qed
qed

section \<open>Fuel\<close>

lemma fuel_mono:
  "isEqual_inner n h x y = Some b \<Longrightarrow> n \<le> m \<Longrightarrow> isEqual_inner m h x y = Some b"
proof (induction n arbitrary: m x y b)
  case 0
  then show ?case by simp
next
  case (Suc n)
  from Suc.prems(2) obtain m' where m: "m = Suc m'" "n \<le> m'" by (cases m) auto
  have step: "\<And>u v c. isEqual_inner n h u v = Some c \<Longrightarrow> isEqual_inner m' h u v = Some c"
    using Suc.IH m(2) by blast
  have arr: "\<And>is. for_each (\<lambda>i. isEqual_inner n h (get h x (Index i)) (get h y (Index i))) is = Some b
     \<Longrightarrow> for_each (\<lambda>i. isEqual_inner m' h (get h x (Index i)) (get h y (Index i))) is = Some b"
    by (erule for_each_mono) (rule step)
  have ob: "\<And>ks ys. for_each (\<lambda>key. if key \<notin> set ys then Some False
                         else isEqual_inner n h (get h x key) (get h y key)) ks = Some b
     \<Longrightarrow> for_each (\<lambda>key. if key \<notin> set ys then Some False
                         else isEqual_inner m' h (get h x key) (get h y key)) ks = Some b"
    by (erule for_each_mono) (auto dest: step split: if_splits)
  from Suc.prems(1) show ?case
    unfolding m(1) isEqual_inner.simps Let_def
    by (auto split: if_splits dest: arr ob)
qed

section \<open>Depth\<close>

lemma primitive_not_array: "is_primitive v \<Longrightarrow> \<not> Array_isArray h v"
  by (cases v) (auto simp: is_primitive_def Array_isArray_def)

lemma primitive_not_object: "is_primitive v \<Longrightarrow> \<not> isObject_inner h v"
  by (cases v) (auto simp: is_primitive_def isObject_inner_def loosely_null_def typeof_def)

lemma depth_le_primitive: "is_primitive v \<Longrightarrow> depth_le d h v"
  by (cases d; cases v) (auto simp: is_primitive_def)

lemma depth_le_get: "depth_le (Suc d) h x \<Longrightarrow> depth_le d h (get h x k)"
proof (cases x)
  case (Ref a)
  assume d: "depth_le (Suc d) h x"
  show ?thesis
  proof (cases "map_of (props (objs h a)) k")
    case None
    with Ref show ?thesis by (simp add: get_def depth_le_primitive is_primitive_def)
  next
    case (Some w)
    then have "w \<in> set (map snd (props (objs h a)))"
      by (auto dest: map_of_SomeD intro: rev_image_eqI)
    with d Ref have "depth_le d h w" by (auto simp: list_all_iff)
    with Ref Some show ?thesis by (simp add: get_def)
  qed
qed (simp_all add: get_def depth_le_primitive is_primitive_def)

section \<open>The branches of the comparison\<close>

lemma isEqual_leaf:
  "strict_equal x y \<or> (Number_isNaN x \<and> Number_isNaN y) \<Longrightarrow> isEqual_inner (Suc n) h x y = Some True"
  by simp

lemma isEqual_arrays:
  assumes "\<not> (strict_equal x y \<or> (Number_isNaN x \<and> Number_isNaN y))"
    and "Array_isArray h x" and "Array_isArray h y"
  shows "isEqual_inner (Suc n) h x y =
     (if length_of h x \<noteq> length_of h y then Some False
      else for_each (\<lambda>i. isEqual_inner n h (get h x (Index i)) (get h y (Index i)))
             [0 ..< length_of h x])"
proof -
  have "isEqual_inner (Suc n) h x y =
     (if length_of h x \<noteq> length_of h y then Some False
         else if length_of h x = 0 then Some True
         else for_each
                (\<lambda>i. isEqual_inner n h (get h x (Index i)) (get h y (Index i)))
                [0 ..< length_of h x])"
    unfolding isEqual_inner.simps using assms by (simp only: if_False if_True simp_thms)
  also have "\<dots> = (if length_of h x \<noteq> length_of h y then Some False
      else for_each (\<lambda>i. isEqual_inner n h (get h x (Index i)) (get h y (Index i)))
             [0 ..< length_of h x])"
    by simp
  finally show ?thesis .
qed

lemma isEqual_objects:
  assumes "\<not> (strict_equal x y \<or> (Number_isNaN x \<and> Number_isNaN y))"
    and "\<not> (Array_isArray h x \<and> Array_isArray h y)"
    and "isObject_inner h x" and "isObject_inner h y"
  shows "isEqual_inner (Suc n) h x y =
     (if \<not> strict_equal (Object_getPrototypeOf h x) (Object_getPrototypeOf h y) then Some False
      else if length (Object_keys h x) \<noteq> length (Object_keys h y) then Some False
      else for_each
             (\<lambda>key. if key \<notin> set (Object_keys h y) then Some False
                    else isEqual_inner n h (get h x key) (get h y key))
             (Object_keys h x))"
proof -
  have "isEqual_inner (Suc n) h x y =
     (if \<not> strict_equal (Object_getPrototypeOf h x) (Object_getPrototypeOf h y)
         then Some False
         else
           let xKeys = Object_keys h x; yKeys = Object_keys h y in
           if length xKeys \<noteq> length yKeys then Some False
           else if length xKeys = 0 then Some True
           else for_each
                  (\<lambda>key. if key \<notin> set yKeys then Some False
                         else isEqual_inner n h (get h x key) (get h y key))
                  xKeys)"
    unfolding isEqual_inner.simps using assms by (simp only: if_False if_True simp_thms)
  also have "\<dots> = (if \<not> strict_equal (Object_getPrototypeOf h x) (Object_getPrototypeOf h y) then Some False
      else if length (Object_keys h x) \<noteq> length (Object_keys h y) then Some False
      else for_each
             (\<lambda>key. if key \<notin> set (Object_keys h y) then Some False
                    else isEqual_inner n h (get h x key) (get h y key))
             (Object_keys h x))"
    by (simp add: Let_def)
  finally show ?thesis .
qed

lemma isEqual_other:
  assumes "\<not> (strict_equal x y \<or> (Number_isNaN x \<and> Number_isNaN y))"
    and "\<not> (Array_isArray h x \<and> Array_isArray h y)"
    and "\<not> (isObject_inner h x \<and> isObject_inner h y)"
  shows "isEqual_inner (Suc n) h x y = Some False"
  unfolding isEqual_inner.simps using assms by (simp only: if_False if_True simp_thms)

declare isEqual_inner.simps(2) [simp del]

section \<open>Termination on non-cyclic values\<close>

lemma isEqual_inner_total:
  "depth_le d h x \<or> depth_le d h y \<Longrightarrow> \<exists>b. isEqual_inner (Suc d) h x y = Some b"
proof (induction d arbitrary: x y)
  case 0
  then have "is_primitive x \<or> is_primitive y" by (simp add: is_primitive_def)
  then have nb: "\<not> (Array_isArray h x \<and> Array_isArray h y)"
    and nc: "\<not> (isObject_inner h x \<and> isObject_inner h y)"
    using primitive_not_array primitive_not_object by blast+
  show ?case
  proof (cases "strict_equal x y \<or> (Number_isNaN x \<and> Number_isNaN y)")
    case True
    then show ?thesis using isEqual_leaf by blast
  next
    case False
    then show ?thesis using isEqual_other [OF False nb nc] by blast
  qed
next
  case (Suc d)
  have sub: "\<And>k. \<exists>b. isEqual_inner (Suc d) h (get h x k) (get h y k) = Some b"
    using Suc.IH Suc.prems depth_le_get by blast
  have arr: "\<exists>b. for_each (\<lambda>i. isEqual_inner (Suc d) h (get h x (Index i)) (get h y (Index i)))
                [0 ..< length_of h x] = Some b"
    by (rule for_each_Some) (rule sub)
  have ob: "\<exists>b. for_each (\<lambda>key. if key \<notin> set (Object_keys h y) then Some False
                         else isEqual_inner (Suc d) h (get h x key) (get h y key))
                  (Object_keys h x) = Some b"
    by (rule for_each_Some) (use sub in auto)
  consider (leaf) "strict_equal x y \<or> (Number_isNaN x \<and> Number_isNaN y)"
    | (arrays) "\<not> (strict_equal x y \<or> (Number_isNaN x \<and> Number_isNaN y))"
        "Array_isArray h x" "Array_isArray h y"
    | (objects) "\<not> (strict_equal x y \<or> (Number_isNaN x \<and> Number_isNaN y))"
        "\<not> (Array_isArray h x \<and> Array_isArray h y)" "isObject_inner h x" "isObject_inner h y"
    | (other) "\<not> (strict_equal x y \<or> (Number_isNaN x \<and> Number_isNaN y))"
        "\<not> (Array_isArray h x \<and> Array_isArray h y)"
        "\<not> (isObject_inner h x \<and> isObject_inner h y)"
    by blast
  then show ?case
  proof cases
    case leaf
    then show ?thesis using isEqual_leaf by blast
  next
    case arrays
    show ?thesis unfolding isEqual_arrays [OF arrays] using arr by auto
  next
    case objects
    show ?thesis unfolding isEqual_objects [OF objects] using ob by auto
  next
    case other
    show ?thesis unfolding isEqual_other [OF other] by blast
  qed
qed

lemma isEqual_inner_unique:
  "isEqual_inner n h x y = Some b \<Longrightarrow> isEqual_inner m h x y = Some c \<Longrightarrow> b = c"
proof -
  assume a: "isEqual_inner n h x y = Some b" and b: "isEqual_inner m h x y = Some c"
  have "isEqual_inner (max n m) h x y = Some b" using a fuel_mono by (meson max.cobounded1)
  moreover have "isEqual_inner (max n m) h x y = Some c" using b fuel_mono by (meson max.cobounded2)
  ultimately show ?thesis by simp
qed

lemma returns_unique: "returns h x y b \<Longrightarrow> returns h x y c \<Longrightarrow> b = c"
  unfolding returns_def Tuple_isEqual_def using isEqual_inner_unique by blast

section \<open>The result of a call\<close>

lemma common_fuel:
  fixes F :: "nat \<Rightarrow> 'a \<Rightarrow> bool option"
  assumes mono': "\<forall>n m a c. F n a = Some c \<longrightarrow> n \<le> m \<longrightarrow> F m a = Some c"
  shows "\<exists>N. \<forall>a\<in>set xs. \<forall>n c. F n a = Some c \<longrightarrow> F N a = Some c"
proof (induction xs)
  case Nil
  show ?case by simp
next
  case (Cons a as)
  have mono: "\<And>n m a c. F n a = Some c \<Longrightarrow> n \<le> m \<Longrightarrow> F m a = Some c"
    using mono' by blast
  from Cons obtain N where N: "\<forall>a\<in>set as. \<forall>n c. F n a = Some c \<longrightarrow> F N a = Some c" by blast
  show ?case
  proof (cases "\<exists>n c. F n a = Some c")
    case True
    then obtain n c where nc: "F n a = Some c" by blast
    have "\<forall>a'\<in>set (a # as). \<forall>n' c'. F n' a' = Some c' \<longrightarrow> F (max N n) a' = Some c'"
    proof (intro ballI allI impI)
      fix a' n' c' assume a': "a' \<in> set (a # as)" and f: "F n' a' = Some c'"
      show "F (max N n) a' = Some c'"
      proof (cases "a' = a")
        case True
        have "F (max n n') a = Some c"
          by (rule mono [OF nc]) simp
        moreover have "F (max n n') a = Some c'"
        proof (rule mono)
          show "F n' a = Some c'" using f True by simp
        qed simp
        ultimately have "c' = c" by simp
        moreover have "F (max N n) a = Some c"
          by (rule mono [OF nc]) simp
        ultimately show ?thesis using True by simp
      next
        case False
        with a' have "a' \<in> set as" by simp
        with N f have "F N a' = Some c'" by blast
        then show ?thesis by (rule mono) simp
      qed
    qed
    then show ?thesis by blast
  next
    case False
    with N have "\<forall>a'\<in>set (a # as). \<forall>n' c'. F n' a' = Some c' \<longrightarrow> F N a' = Some c'"
      by auto
    then show ?thesis by blast
  qed
qed

lemma loop_returns_True:
  fixes F :: "nat \<Rightarrow> 'a \<Rightarrow> bool option"
  assumes mono': "\<forall>n m a c. F n a = Some c \<longrightarrow> n \<le> m \<longrightarrow> F m a = Some c"
  shows "(\<exists>n. for_each (F n) xs = Some True) \<longleftrightarrow> (\<forall>a\<in>set xs. \<exists>n. F n a = Some True)"
proof
  assume "\<exists>n. for_each (F n) xs = Some True"
  then show "\<forall>a\<in>set xs. \<exists>n. F n a = Some True"
    by (auto simp: for_each_True)
next
  assume r: "\<forall>a\<in>set xs. \<exists>n. F n a = Some True"
  from common_fuel [where F = F and xs = xs, OF mono'] obtain N
    where N: "\<forall>a\<in>set xs. \<forall>n c. F n a = Some c \<longrightarrow> F N a = Some c" by blast
  have "\<forall>a\<in>set xs. F N a = Some True" using r N by blast
  then have "for_each (F N) xs = Some True" by (simp add: for_each_True)
  then show "\<exists>n. for_each (F n) xs = Some True" by blast
qed

lemma loop_returns_False:
  fixes F :: "nat \<Rightarrow> 'a \<Rightarrow> bool option"
  assumes mono': "\<forall>n m a c. F n a = Some c \<longrightarrow> n \<le> m \<longrightarrow> F m a = Some c"
  shows "(\<exists>n. for_each (F n) xs = Some False) \<longleftrightarrow>
     (\<exists>i<length xs. (\<exists>n. F n (xs ! i) = Some False) \<and> (\<forall>j<i. \<exists>n. F n (xs ! j) = Some True))"
proof
  assume "\<exists>n. for_each (F n) xs = Some False"
  then obtain n where "for_each (F n) xs = Some False" by blast
  then obtain i where "i < length xs" "F n (xs ! i) = Some False" "\<forall>j<i. F n (xs ! j) = Some True"
    unfolding for_each_False by blast
  then show "\<exists>i<length xs. (\<exists>n. F n (xs ! i) = Some False) \<and> (\<forall>j<i. \<exists>n. F n (xs ! j) = Some True)"
    by blast
next
  assume "\<exists>i<length xs. (\<exists>n. F n (xs ! i) = Some False) \<and> (\<forall>j<i. \<exists>n. F n (xs ! j) = Some True)"
  then obtain i where i: "i < length xs" "\<exists>n. F n (xs ! i) = Some False"
    "\<forall>j<i. \<exists>n. F n (xs ! j) = Some True" by blast
  from common_fuel [where F = F and xs = xs, OF mono'] obtain N
    where N: "\<forall>a\<in>set xs. \<forall>n c. F n a = Some c \<longrightarrow> F N a = Some c" by blast
  have "F N (xs ! i) = Some False" using i(1,2) N nth_mem by blast
  moreover have "\<forall>j<i. F N (xs ! j) = Some True"
  proof (intro allI impI)
    fix j assume "j < i"
    then have "j < length xs" "\<exists>n. F n (xs ! j) = Some True" using i by auto
    then show "F N (xs ! j) = Some True" using N nth_mem by blast
  qed
  ultimately have "for_each (F N) xs = Some False"
    unfolding for_each_False using i(1) by blast
  then show "\<exists>n. for_each (F n) xs = Some False" by blast
qed

lemma returns_Suc: "returns h x y b \<longleftrightarrow> (\<exists>n. isEqual_inner (Suc n) h x y = Some b)"
proof
  assume "returns h x y b"
  then obtain n where n: "isEqual_inner n h x y = Some b"
    unfolding returns_def Tuple_isEqual_def by blast
  then show "\<exists>n. isEqual_inner (Suc n) h x y = Some b"
    using fuel_mono [OF n, of "Suc n"] by auto
next
  assume "\<exists>n. isEqual_inner (Suc n) h x y = Some b"
  then show "returns h x y b" unfolding returns_def Tuple_isEqual_def by blast
qed

lemma returns_inner: "returns h x y b \<longleftrightarrow> (\<exists>n. isEqual_inner n h x y = Some b)"
  unfolding returns_def Tuple_isEqual_def ..

lemma returns_leaf:
  "strict_equal x y \<or> (Number_isNaN x \<and> Number_isNaN y) \<Longrightarrow> returns h x y True"
  unfolding returns_Suc using isEqual_leaf by blast

lemma returns_fuel: "Tuple_isEqual n h x y = Some b \<Longrightarrow> returns h x y b"
  unfolding returns_def by blast

lemma returns_total: "depth_le d h x \<or> depth_le d h y \<Longrightarrow> \<exists>b. returns h x y b"
  unfolding returns_inner using isEqual_inner_total by blast

section \<open>Arrays and objects are references\<close>

lemma array_is_ref: "Array_isArray h x \<Longrightarrow> \<exists>a. x = Ref a"
  by (cases x) (simp_all add: Array_isArray_def)

lemma object_is_ref: "isObject_inner h x \<Longrightarrow> \<exists>a. x = Ref a"
  by (cases x) (simp_all add: isObject_inner_def loosely_null_def typeof_def)

lemma refs_not_leaf:
  "x = Ref a \<Longrightarrow> x \<noteq> y \<Longrightarrow> \<not> (strict_equal x y \<or> (Number_isNaN x \<and> Number_isNaN y))"
  by (cases y) (auto simp: Number_isNaN_def)

lemma proto_strict_equal:
  "strict_equal (Object_getPrototypeOf h x) (Object_getPrototypeOf h y)
     \<longleftrightarrow> Object_getPrototypeOf h x = Object_getPrototypeOf h y"
  by (cases x; cases y) (auto simp: Object_getPrototypeOf_def split: option.splits)

section \<open>What the two loops return\<close>

lemma arrays_return_True:
  assumes "\<not> (strict_equal x y \<or> (Number_isNaN x \<and> Number_isNaN y))"
    and "Array_isArray h x" and "Array_isArray h y"
  shows "returns h x y True \<longleftrightarrow>
     length_of h x = length_of h y
     \<and> (\<forall>i<length_of h x. returns h (get h x (Index i)) (get h y (Index i)) True)"
proof -
  let ?F = "\<lambda>n i. isEqual_inner n h (get h x (Index i)) (get h y (Index i))"
  have mono: "\<forall>n m a c. ?F n a = Some c \<longrightarrow> n \<le> m \<longrightarrow> ?F m a = Some c"
    using fuel_mono by blast
  have "returns h x y True \<longleftrightarrow> (\<exists>n. isEqual_inner (Suc n) h x y = Some True)"
    by (rule returns_Suc)
  also have "\<dots> \<longleftrightarrow> length_of h x = length_of h y
      \<and> (\<exists>n. for_each (?F n) [0 ..< length_of h x] = Some True)"
    unfolding isEqual_arrays [OF assms] by auto
  also have "\<dots> \<longleftrightarrow> length_of h x = length_of h y
      \<and> (\<forall>i\<in>set [0 ..< length_of h x]. \<exists>n. ?F n i = Some True)"
    unfolding loop_returns_True [where F = ?F, OF mono] ..
  also have "\<dots> \<longleftrightarrow> length_of h x = length_of h y
     \<and> (\<forall>i<length_of h x. returns h (get h x (Index i)) (get h y (Index i)) True)"
    unfolding returns_inner by auto
  finally show ?thesis .
qed

lemma arrays_return_False:
  assumes "\<not> (strict_equal x y \<or> (Number_isNaN x \<and> Number_isNaN y))"
    and "Array_isArray h x" and "Array_isArray h y"
  shows "returns h x y False \<longleftrightarrow>
     length_of h x \<noteq> length_of h y
     \<or> (\<exists>i<length_of h x. returns h (get h x (Index i)) (get h y (Index i)) False
          \<and> (\<forall>j<i. returns h (get h x (Index j)) (get h y (Index j)) True))"
proof -
  let ?F = "\<lambda>n i. isEqual_inner n h (get h x (Index i)) (get h y (Index i))"
  let ?is = "[0 ..< length_of h x]"
  have mono: "\<forall>n m a c. ?F n a = Some c \<longrightarrow> n \<le> m \<longrightarrow> ?F m a = Some c"
    using fuel_mono by blast
  have idx: "(\<exists>i<length ?is. (\<exists>n. ?F n (?is ! i) = Some False) \<and> (\<forall>j<i. \<exists>n. ?F n (?is ! j) = Some True))
     \<longleftrightarrow> (\<exists>i<length_of h x. (\<exists>n. ?F n i = Some False) \<and> (\<forall>j<i. \<exists>n. ?F n j = Some True))"
    (is "?A \<longleftrightarrow> ?B")
  proof
    assume ?A
    then obtain i where i: "i < length ?is" "\<exists>n. ?F n (?is ! i) = Some False"
      "\<forall>j<i. \<exists>n. ?F n (?is ! j) = Some True" by blast
    have "\<forall>j\<le>i. ?is ! j = j" using i(1) by simp
    then have "\<exists>n. ?F n i = Some False" "\<forall>j<i. \<exists>n. ?F n j = Some True"
      using i(2,3) by (auto simp del: nth_upt)
    then show ?B using i(1) by (intro exI[of _ i]) (simp del: nth_upt)
  next
    assume ?B
    then obtain i where i: "i < length_of h x" "\<exists>n. ?F n i = Some False"
      "\<forall>j<i. \<exists>n. ?F n j = Some True" by blast
    have "\<forall>j\<le>i. ?is ! j = j" using i(1) by simp
    then have "\<exists>n. ?F n (?is ! i) = Some False" "\<forall>j<i. \<exists>n. ?F n (?is ! j) = Some True"
      using i(2,3) by (auto simp del: nth_upt)
    then show ?A using i(1) by (intro exI[of _ i]) (simp del: nth_upt)
  qed
  have "returns h x y False \<longleftrightarrow> (\<exists>n. isEqual_inner (Suc n) h x y = Some False)"
    by (rule returns_Suc)
  also have "\<dots> \<longleftrightarrow> length_of h x \<noteq> length_of h y
      \<or> (\<exists>n. for_each (?F n) ?is = Some False)"
    unfolding isEqual_arrays [OF assms] by auto
  also have "\<dots> \<longleftrightarrow> length_of h x \<noteq> length_of h y
      \<or> (\<exists>i<length_of h x. (\<exists>n. ?F n i = Some False) \<and> (\<forall>j<i. \<exists>n. ?F n j = Some True))"
    unfolding loop_returns_False [where F = ?F, OF mono] idx ..
  finally show ?thesis unfolding returns_inner .
qed

lemma objects_return_True:
  assumes "\<not> (strict_equal x y \<or> (Number_isNaN x \<and> Number_isNaN y))"
    and "\<not> (Array_isArray h x \<and> Array_isArray h y)"
    and "isObject_inner h x" and "isObject_inner h y"
  shows "returns h x y True \<longleftrightarrow>
     Object_getPrototypeOf h x = Object_getPrototypeOf h y
     \<and> length (Object_keys h x) = length (Object_keys h y)
     \<and> (\<forall>key\<in>set (Object_keys h x).
           key \<in> set (Object_keys h y) \<and> returns h (get h x key) (get h y key) True)"
proof -
  let ?F = "\<lambda>n key. if key \<notin> set (Object_keys h y) then Some False
                    else isEqual_inner n h (get h x key) (get h y key)"
  have mono: "\<forall>n m a c. ?F n a = Some c \<longrightarrow> n \<le> m \<longrightarrow> ?F m a = Some c"
  proof (intro allI impI)
    fix n m :: nat and a c
    assume f: "?F n a = Some c" and le: "n \<le> m"
    show "?F m a = Some c"
    proof (cases "a \<in> set (Object_keys h y)")
      case True
      with f have "isEqual_inner n h (get h x a) (get h y a) = Some c" by simp
      from fuel_mono [OF this le] True show ?thesis by simp
    next
      case False
      with f show ?thesis by simp
    qed
  qed
  have "returns h x y True \<longleftrightarrow> (\<exists>n. isEqual_inner (Suc n) h x y = Some True)"
    by (rule returns_Suc)
  also have "\<dots> \<longleftrightarrow> Object_getPrototypeOf h x = Object_getPrototypeOf h y
     \<and> length (Object_keys h x) = length (Object_keys h y)
     \<and> (\<exists>n. for_each (?F n) (Object_keys h x) = Some True)"
    unfolding isEqual_objects [OF assms] proto_strict_equal by auto
  also have "\<dots> \<longleftrightarrow> Object_getPrototypeOf h x = Object_getPrototypeOf h y
     \<and> length (Object_keys h x) = length (Object_keys h y)
     \<and> (\<forall>key\<in>set (Object_keys h x). \<exists>n. ?F n key = Some True)"
    unfolding loop_returns_True [where F = ?F, OF mono] ..
  also have "\<dots> \<longleftrightarrow> Object_getPrototypeOf h x = Object_getPrototypeOf h y
     \<and> length (Object_keys h x) = length (Object_keys h y)
     \<and> (\<forall>key\<in>set (Object_keys h x).
           key \<in> set (Object_keys h y) \<and> returns h (get h x key) (get h y key) True)"
    unfolding returns_inner by (auto split: if_splits)
  finally show ?thesis .
qed

lemma isEqual_True_iff:
  "isEqual_inner (Suc n) h x y = Some True \<longleftrightarrow>
     (strict_equal x y \<or> (Number_isNaN x \<and> Number_isNaN y))
     \<or> (Array_isArray h x \<and> Array_isArray h y \<and> length_of h x = length_of h y
          \<and> (\<forall>i<length_of h x. isEqual_inner n h (get h x (Index i)) (get h y (Index i)) = Some True))
     \<or> (\<not> (Array_isArray h x \<and> Array_isArray h y) \<and> isObject_inner h x \<and> isObject_inner h y
          \<and> Object_getPrototypeOf h x = Object_getPrototypeOf h y
          \<and> length (Object_keys h x) = length (Object_keys h y)
          \<and> (\<forall>key\<in>set (Object_keys h x). key \<in> set (Object_keys h y)
                \<and> isEqual_inner n h (get h x key) (get h y key) = Some True))"
proof -
  consider (leaf) "strict_equal x y \<or> (Number_isNaN x \<and> Number_isNaN y)"
    | (arrays) "\<not> (strict_equal x y \<or> (Number_isNaN x \<and> Number_isNaN y))"
        "Array_isArray h x" "Array_isArray h y"
    | (objects) "\<not> (strict_equal x y \<or> (Number_isNaN x \<and> Number_isNaN y))"
        "\<not> (Array_isArray h x \<and> Array_isArray h y)" "isObject_inner h x" "isObject_inner h y"
    | (other) "\<not> (strict_equal x y \<or> (Number_isNaN x \<and> Number_isNaN y))"
        "\<not> (Array_isArray h x \<and> Array_isArray h y)"
        "\<not> (isObject_inner h x \<and> isObject_inner h y)"
    by blast
  then show ?thesis
  proof cases
    case leaf
    then show ?thesis using isEqual_leaf by blast
  next
    case arrays
    have "isEqual_inner (Suc n) h x y = Some True \<longleftrightarrow> length_of h x = length_of h y
          \<and> (\<forall>i<length_of h x. isEqual_inner n h (get h x (Index i)) (get h y (Index i)) = Some True)"
      unfolding isEqual_arrays [OF arrays] by (auto simp: for_each_True)
    with arrays show ?thesis by blast
  next
    case objects
    have "isEqual_inner (Suc n) h x y = Some True \<longleftrightarrow>
            Object_getPrototypeOf h x = Object_getPrototypeOf h y
          \<and> length (Object_keys h x) = length (Object_keys h y)
          \<and> (\<forall>key\<in>set (Object_keys h x). key \<in> set (Object_keys h y)
                \<and> isEqual_inner n h (get h x key) (get h y key) = Some True)"
      unfolding isEqual_objects [OF objects] proto_strict_equal
      by (auto simp: for_each_True split: if_splits)
    with objects show ?thesis by blast
  next
    case other
    have "isEqual_inner (Suc n) h x y \<noteq> Some True"
      unfolding isEqual_other [OF other] by simp
    with other show ?thesis by blast
  qed
qed

section \<open>Symmetry\<close>

lemma strict_equal_sym: "strict_equal x y \<longleftrightarrow> strict_equal y x"
  by (cases x; cases y) (auto simp: number_equal_def)

lemma distinct_Object_keys: "distinct_keys h \<Longrightarrow> distinct (Object_keys h v)"
  by (cases v) (simp_all add: distinct_keys_def Object_keys_def)

lemma same_keys:
  assumes "distinct xs" "distinct ys" "length xs = length ys" "set xs \<subseteq> set ys"
  shows "set xs = set ys"
proof (rule card_subset_eq)
  show "finite (set ys)" by simp
  show "set xs \<subseteq> set ys" by fact
  show "card (set xs) = card (set ys)" using assms by (simp add: distinct_card)
qed

lemma sym_True:
  "distinct_keys h \<Longrightarrow> isEqual_inner n h x y = Some True \<Longrightarrow> isEqual_inner n h y x = Some True"
proof (induction n arbitrary: x y)
  case 0
  then show ?case by simp
next
  case (Suc n)
  from Suc.prems(2) consider
      (leaf) "strict_equal x y \<or> (Number_isNaN x \<and> Number_isNaN y)"
    | (arrays) "Array_isArray h x" "Array_isArray h y" "length_of h x = length_of h y"
        "\<forall>i<length_of h x. isEqual_inner n h (get h x (Index i)) (get h y (Index i)) = Some True"
    | (objects) "\<not> (Array_isArray h x \<and> Array_isArray h y)" "isObject_inner h x" "isObject_inner h y"
        "Object_getPrototypeOf h x = Object_getPrototypeOf h y"
        "length (Object_keys h x) = length (Object_keys h y)"
        "\<forall>key\<in>set (Object_keys h x). key \<in> set (Object_keys h y)
                \<and> isEqual_inner n h (get h x key) (get h y key) = Some True"
    unfolding isEqual_True_iff by blast
  then show ?case
  proof cases
    case leaf
    then have "strict_equal y x \<or> (Number_isNaN y \<and> Number_isNaN x)"
      using strict_equal_sym by blast
    then show ?thesis by (rule isEqual_leaf)
  next
    case arrays
    have "\<forall>i<length_of h y. isEqual_inner n h (get h y (Index i)) (get h x (Index i)) = Some True"
      using arrays(3,4) Suc.IH [OF Suc.prems(1)] by simp
    with arrays(1,2,3) show ?thesis unfolding isEqual_True_iff by simp
  next
    case objects
    have "set (Object_keys h x) = set (Object_keys h y)"
      using objects(5,6) distinct_Object_keys [OF Suc.prems(1)] by (intro same_keys) auto
    then have "\<forall>key\<in>set (Object_keys h y). key \<in> set (Object_keys h x)
                \<and> isEqual_inner n h (get h y key) (get h x key) = Some True"
      using objects(6) Suc.IH [OF Suc.prems(1)] by blast
    moreover have "\<not> (Array_isArray h y \<and> Array_isArray h x)"
      using objects(1) by blast
    ultimately show ?thesis
      unfolding isEqual_True_iff using objects(2-5) by (intro disjI2 conjI) simp_all
  qed
qed

lemma sym_result:
  assumes dk: "distinct_keys h"
    and d: "depth_le d h x \<or> depth_le d h y" and fuel: "d < fuel"
  shows "isEqual_inner fuel h x y = isEqual_inner fuel h y x"
proof -
  obtain b where b: "isEqual_inner (Suc d) h x y = Some b"
    using isEqual_inner_total [OF d] by blast
  have "depth_le d h y \<or> depth_le d h x" using d by blast
  then obtain b' where b': "isEqual_inner (Suc d) h y x = Some b'"
    using isEqual_inner_total by blast
  have le: "Suc d \<le> fuel" using fuel by simp
  have "b' = b" using sym_True [OF dk, of "Suc d" x y] sym_True [OF dk, of "Suc d" y x] b b'
    by (cases b; cases b') auto
  then show ?thesis using fuel_mono [OF b le] fuel_mono [OF b' le] by simp
qed

section \<open>The order of the keys\<close>

lemma map_of_permuted:
  assumes "distinct (map fst xs)" and "mset xs = mset ys"
  shows "map_of xs = map_of ys"
proof -
  have "mset (map fst xs) = mset (map fst ys)" using assms(2) by (metis mset_map)
  then have "distinct (map fst ys)" using assms(1) by (metis mset_eq_imp_distinct_iff)
  moreover have "set xs = set ys" using assms(2) by (rule mset_eq_setD)
  ultimately show ?thesis using assms(1) by (simp add: map_of_inject_set)
qed

lemma reorder_get:
  "distinct_keys h \<Longrightarrow> same_up_to_key_order h h' \<Longrightarrow> get h' v k = get h v k"
proof (cases v)
  case (Ref a)
  assume "distinct_keys h" "same_up_to_key_order h h'"
  then have "map_of (props (objs h a)) = map_of (props (objs h' a))"
    unfolding distinct_keys_def same_up_to_key_order_def by (intro map_of_permuted) auto
  with Ref show ?thesis by (simp add: get_def)
qed (simp_all add: get_def)

lemma reorder_keys:
  assumes "same_up_to_key_order h h'"
  shows "set (Object_keys h' v) = set (Object_keys h v)"
    and "length (Object_keys h' v) = length (Object_keys h v)"
proof -
  have m: "\<And>a. mset (props (objs h a)) = mset (props (objs h' a))"
    using assms unfolding same_up_to_key_order_def by blast
  show "set (Object_keys h' v) = set (Object_keys h v)"
  proof (cases v)
    case (Ref a)
    have "set (props (objs h a)) = set (props (objs h' a))" using m by (rule mset_eq_setD)
    with Ref show ?thesis by (simp add: Object_keys_def)
  qed (simp_all add: Object_keys_def)
  show "length (Object_keys h' v) = length (Object_keys h v)"
  proof (cases v)
    case (Ref a)
    have "length (props (objs h a)) = length (props (objs h' a))" using m by (rule mset_eq_length)
    with Ref show ?thesis by (simp add: Object_keys_def)
  qed (simp_all add: Object_keys_def)
qed

lemma reorder_shape:
  assumes "same_up_to_key_order h h'"
  shows "Array_isArray h' v = Array_isArray h v"
    and "isObject_inner h' v = isObject_inner h v"
    and "length_of h' v = length_of h v"
    and "Object_getPrototypeOf h' v = Object_getPrototypeOf h v"
  using assms
  by (cases v; simp add: same_up_to_key_order_def Array_isArray_def isObject_inner_def
      typeof_def length_of_def Object_getPrototypeOf_def)+

lemma reorder_depth:
  "same_up_to_key_order h h' \<Longrightarrow> depth_le d h v \<Longrightarrow> depth_le d h' v"
proof (induction d arbitrary: v)
  case 0
  then show ?case by simp
next
  case (Suc d)
  show ?case
  proof (cases v)
    case (Ref a)
    have "mset (props (objs h a)) = mset (props (objs h' a))"
      using Suc.prems(1) unfolding same_up_to_key_order_def by blast
    then have "set (props (objs h' a)) = set (props (objs h a))"
      using mset_eq_setD by blast
    moreover have "\<forall>p\<in>set (props (objs h a)). depth_le d h (snd p)"
      using Suc.prems(2) Ref by (simp add: list_all_iff)
    ultimately have "\<forall>p\<in>set (props (objs h' a)). depth_le d h' (snd p)"
      using Suc.IH [OF Suc.prems(1)] by blast
    with Ref show ?thesis by (simp add: list_all_iff)
  qed simp_all
qed

lemma reorder_True:
  assumes dk: "distinct_keys h" and so: "same_up_to_key_order h h'"
  shows "isEqual_inner n h' x y = Some True \<longleftrightarrow> isEqual_inner n h x y = Some True"
proof (induction n arbitrary: x y)
  case 0
  show ?case by simp
next
  case (Suc n)
  show ?case
    unfolding isEqual_True_iff reorder_shape [OF so] reorder_keys [OF so]
      reorder_get [OF dk so] Suc.IH ..
qed

lemma reorder_result:
  assumes dk: "distinct_keys h" and so: "same_up_to_key_order h h'"
    and d: "depth_le d h x \<or> depth_le d h y" and fuel: "d < fuel"
  shows "isEqual_inner fuel h' x y = isEqual_inner fuel h x y"
proof -
  obtain b where b: "isEqual_inner (Suc d) h x y = Some b"
    using isEqual_inner_total [OF d] by blast
  have "depth_le d h' x \<or> depth_le d h' y" using d reorder_depth [OF so] by blast
  then obtain b' where b': "isEqual_inner (Suc d) h' x y = Some b'"
    using isEqual_inner_total by blast
  have le: "Suc d \<le> fuel" using fuel by simp
  have "b' = b" using reorder_True [OF dk so, of "Suc d" x y] b b' by auto
  then show ?thesis using fuel_mono [OF b le] fuel_mono [OF b' le] by simp
qed

section \<open>Property lists\<close>

lemma map_of_define_prop: "map_of (define_prop k v ps) = (map_of ps)(k \<mapsto> v)"
  by (induction ps) (auto simp: fun_eq_iff)

lemma keys_define_prop: "fst ` set (define_prop k v ps) = insert k (fst ` set ps)"
  by (induction ps) auto

lemma distinct_define_prop:
  "distinct (map fst ps) \<Longrightarrow> distinct (map fst (define_prop k v ps))"
  by (induction ps) (auto simp: keys_define_prop)

section \<open>Writes touch one object\<close>

lemma create_data_property_other:
  "b \<noteq> a \<Longrightarrow> objs (create_data_property h a k v) b = objs h b"
  by (simp add: create_data_property_def Let_def)

lemma create_data_property_next: "next_addr (create_data_property h a k v) = next_addr h"
  by (simp add: create_data_property_def Let_def)

lemma create_data_property_frozen: "frozen (objs h a) \<Longrightarrow> create_data_property h a k v = h"
  by (simp add: create_data_property_def)

lemma create_data_property_same:
  "\<not> frozen (objs h a) \<Longrightarrow>
     props (objs (create_data_property h a k v) a) = define_prop k v (props (objs h a))
     \<and> cls (objs (create_data_property h a k v) a) = cls (objs h a)
     \<and> proto (objs (create_data_property h a k v) a) = proto (objs h a)
     \<and> \<not> frozen (objs (create_data_property h a k v) a)"
  by (simp add: create_data_property_def Let_def)

lemma create_data_property_kind:
  "cls (objs (create_data_property h a k v) a) = cls (objs h a)
   \<and> frozen (objs (create_data_property h a k v) a) = frozen (objs h a)"
  by (simp add: create_data_property_def Let_def)

lemma set_prototype_result:
  assumes "set_prototype h a v = Inr h'"
  shows "(\<forall>b. b \<noteq> a \<longrightarrow> objs h' b = objs h b)
     \<and> next_addr h' = next_addr h
     \<and> props (objs h' a) = props (objs h a)
     \<and> cls (objs h' a) = cls (objs h a)
     \<and> frozen (objs h' a) = frozen (objs h a)"
  using assms by (cases v) (auto simp: set_prototype_def Let_def split: if_splits)

lemma set_prototype_frozen:
  "frozen (objs h a) \<Longrightarrow> set_prototype h a v = Inr h' \<Longrightarrow> h' = h"
  by (cases v) (auto simp: set_prototype_def Let_def split: if_splits)

lemma find_property_None: "find_property n h None k = NotFound"
  by (cases n) simp_all

lemma find_property_Some:
  "0 < n \<Longrightarrow> find_property n h (Some a) k =
     (if k \<in> fst ` set (props (objs h a)) then DataProperty a
      else if a = Object_prototype \<and> k = proto_key then ProtoAccessor
      else find_property (n - 1) h (proto (objs h a)) k)"
  by (cases n) simp_all

lemma find_property_accessor: "find_property n h p k = ProtoAccessor \<Longrightarrow> k = proto_key"
proof (induction n arbitrary: p)
  case 0
  then show ?case by simp
next
  case (Suc n)
  then show ?case by (cases p) (auto split: if_splits)
qed

text \<open>The cases of an assignment that succeeds.\<close>

lemma set_property_cases:
  assumes "set_property h a k v = Inr h'"
  shows "(\<not> frozen (objs h a) \<and> h' = create_data_property h a k v)
     \<or> (k = proto_key \<and> set_prototype h a v = Inr h')"
proof (cases "find_property (Suc (next_addr h)) h (Some a) k")
  case (DataProperty p)
  from assms show ?thesis
    unfolding set_property_def DataProperty found.case by (auto split: if_splits)
next
  case ProtoAccessor
  then have "k = proto_key" by (rule find_property_accessor)
  with assms show ?thesis
    unfolding set_property_def ProtoAccessor found.case by simp
next
  case NotFound
  from assms show ?thesis
    unfolding set_property_def NotFound found.case by (auto split: if_splits)
qed

lemma set_property_result:
  assumes "set_property h a k v = Inr h'"
  shows "(\<forall>b. b \<noteq> a \<longrightarrow> objs h' b = objs h b)
     \<and> next_addr h' = next_addr h
     \<and> cls (objs h' a) = cls (objs h a)
     \<and> frozen (objs h' a) = frozen (objs h a)"
  using set_property_cases [OF assms]
proof
  assume "\<not> frozen (objs h a) \<and> h' = create_data_property h a k v"
  then show ?thesis
    by (simp add: create_data_property_other create_data_property_next
        create_data_property_kind)
next
  assume "k = proto_key \<and> set_prototype h a v = Inr h'"
  then show ?thesis using set_prototype_result [of h a v h'] by simp
qed

lemma set_property_frozen:
  assumes "frozen (objs h a)" and "set_property h a k v = Inr h'"
  shows "h' = h"
  using set_property_cases [OF assms(2)] assms(1) set_prototype_frozen [of h a v h'] by blast

lemma set_property_data:
  assumes "k \<noteq> proto_key" and "set_property h a k v = Inr h'"
  shows "\<not> frozen (objs h a) \<and> h' = create_data_property h a k v"
  using set_property_cases [OF assms(2)] assms(1) by blast

text \<open>
  An object below \<^verbatim>\<open>Object.prototype\<close> that has no own property \<^verbatim>\<open>__proto__\<close>
  reaches the accessor.
\<close>

lemma set_property_accessor:
  assumes "proto_key \<notin> fst ` set (props (objs h t))" and "t \<noteq> Object_prototype"
    and "proto (objs h t) = Some Object_prototype"
    and "proto_key \<notin> fst ` set (props (objs h Object_prototype))"
    and "0 < next_addr h"
  shows "set_property h t proto_key v = set_prototype h t v"
proof -
  have "find_property (Suc (next_addr h)) h (Some t) proto_key = ProtoAccessor"
    using assms by (simp add: find_property_Some)
  then show ?thesis unfolding set_property_def by simp
qed

text \<open>
  An unfrozen object below an \<^verbatim>\<open>Object.prototype\<close> without enumerable properties
  accepts every key but \<^verbatim>\<open>__proto__\<close> as an own property.
\<close>

lemma set_property_fresh:
  assumes "\<not> frozen (objs h t)" and "t \<noteq> Object_prototype"
    and "proto (objs h t) = Some Object_prototype"
    and "props (objs h Object_prototype) = []"
    and "proto (objs h Object_prototype) = None"
    and "k \<noteq> proto_key"
  shows "set_property h t k v = Inr (create_data_property h t k v)"
proof -
  have up: "find_property (next_addr h) h (Some Object_prototype) k = NotFound"
    using assms(4,5,6) by (cases "next_addr h") (simp_all add: find_property_None)
  have "find_property (Suc (next_addr h)) h (Some t) k = DataProperty t
      \<or> find_property (Suc (next_addr h)) h (Some t) k = NotFound"
    using assms(2,3) up by simp
  then show ?thesis
  proof
    assume f: "find_property (Suc (next_addr h)) h (Some t) k = DataProperty t"
    show ?thesis unfolding set_property_def f found.case using assms(1) by simp
  next
    assume f: "find_property (Suc (next_addr h)) h (Some t) k = NotFound"
    show ?thesis unfolding set_property_def f found.case using assms(1) by simp
  qed
qed

lemma delete_property_other: "b \<noteq> a \<Longrightarrow> objs (delete_property h a k) b = objs h b"
  by (simp add: delete_property_def Let_def)

lemma delete_property_frozen: "frozen (objs h a) \<Longrightarrow> delete_property h a k = h"
  by (simp add: delete_property_def)

lemma mutate_other: "b \<noteq> a \<Longrightarrow> objs (mutate h a m) b = objs h b"
proof (cases m)
  case (Assign k v)
  assume ba: "b \<noteq> a"
  show ?thesis
  proof (cases "set_property h a k v")
    case (Inl e)
    then show ?thesis by (simp add: Assign)
  next
    case (Inr h1)
    then show ?thesis using set_property_result [OF Inr] ba by (simp add: Assign)
  qed
next
  case (Delete k)
  assume "b \<noteq> a"
  then show ?thesis by (simp add: Delete delete_property_other)
qed

lemma mutate_frozen: "frozen (objs h a) \<Longrightarrow> mutate h a m = h"
proof (cases m)
  case (Assign k v)
  assume fr: "frozen (objs h a)"
  show ?thesis
  proof (cases "set_property h a k v")
    case (Inl e)
    then show ?thesis by (simp add: Assign)
  next
    case (Inr h1)
    then show ?thesis using set_property_frozen [OF fr Inr] by (simp add: Assign)
  qed
next
  case (Delete k)
  assume "frozen (objs h a)"
  then show ?thesis by (simp add: Delete delete_property_frozen)
qed

lemma mutate_all_other: "b \<noteq> a \<Longrightarrow> objs (mutate_all h a ms) b = objs h b"
  unfolding mutate_all_def by (induction ms arbitrary: h) (simp_all add: mutate_other)

lemma mutate_all_frozen: "frozen (objs h a) \<Longrightarrow> mutate_all h a ms = h"
  unfolding mutate_all_def by (induction ms arbitrary: h) (simp_all add: mutate_frozen)

section \<open>Filling a fresh object\<close>

lemma fill_object:
  assumes "\<not> frozen (objs h t)"
  shows "let h' = foldl (\<lambda>h1 (k, v). create_data_property h1 t k v) h es in
      (\<forall>b. b \<noteq> t \<longrightarrow> objs h' b = objs h b)
      \<and> next_addr h' = next_addr h
      \<and> props (objs h' t) = foldl (\<lambda>ps (k, v). define_prop k v ps) (props (objs h t)) es
      \<and> cls (objs h' t) = cls (objs h t)
      \<and> proto (objs h' t) = proto (objs h t)
      \<and> \<not> frozen (objs h' t)"
  using assms
proof (induction es arbitrary: h)
  case Nil
  then show ?case by simp
next
  case (Cons e es)
  obtain k v where e: "e = (k, v)" by (cases e)
  have nf: "\<not> frozen (objs (create_data_property h t k v) t)"
    using create_data_property_same [OF Cons.prems] by simp
  show ?case
    using Cons.IH [OF nf] create_data_property_same [OF Cons.prems, of k v]
    by (simp add: e Let_def create_data_property_other create_data_property_next)
qed

lemma keys_fill:
  "fst ` set (foldl (\<lambda>ps (k, v). define_prop k v ps) ps es) = fst ` set ps \<union> fst ` set es"
proof (induction es arbitrary: ps)
  case Nil
  show ?case by simp
next
  case (Cons e es)
  obtain k v where e: "e = (k, v)" by (cases e)
  show ?case using Cons.IH [of "define_prop k v ps"] by (simp add: e keys_define_prop)
qed

lemma distinct_fill:
  "distinct (map fst ps) \<Longrightarrow> distinct (map fst (foldl (\<lambda>ps (k, v). define_prop k v ps) ps es))"
  by (induction es arbitrary: ps) (auto simp: distinct_define_prop)

lemma fill_untouched:
  "k \<notin> fst ` set es \<Longrightarrow>
     map_of (foldl (\<lambda>ps (k, v). define_prop k v ps) ps es) k = map_of ps k"
  by (induction es arbitrary: ps) (auto simp: map_of_define_prop)

lemma Object_fromEntries_result:
  "case Object_fromEntries h es of (r, h') \<Rightarrow>
     r = Ref (next_addr h)
     \<and> props (objs h' (next_addr h)) = foldl (\<lambda>ps (k, v). define_prop k v ps) [] es
     \<and> cls (objs h' (next_addr h)) = OrdinaryObj
     \<and> proto (objs h' (next_addr h)) = Some Object_prototype
     \<and> \<not> frozen (objs h' (next_addr h))
     \<and> (\<forall>b. b \<noteq> next_addr h \<longrightarrow> objs h' b = objs h b)
     \<and> next_addr h' = Suc (next_addr h)"
proof -
  define t where "t = next_addr h"
  define h1 where "h1 = snd (new_object h)"
  define h2 where "h2 = foldl (\<lambda>h2 (k, v). create_data_property h2 t k v) h1 es"
  have n: "new_object h = (Ref t, h1)" by (simp add: new_object_def alloc_def t_def h1_def)
  have nf: "\<not> frozen (objs h1 t)" by (simp add: new_object_def alloc_def t_def h1_def)
  have a: "props (objs h1 t) = []" "cls (objs h1 t) = OrdinaryObj"
    "proto (objs h1 t) = Some Object_prototype" "next_addr h1 = Suc t"
    by (simp_all add: new_object_def alloc_def t_def h1_def)
  have b: "\<And>b. b \<noteq> t \<Longrightarrow> objs h1 b = objs h b"
    by (simp add: new_object_def alloc_def t_def h1_def)
  have f: "(\<forall>b. b \<noteq> t \<longrightarrow> objs h2 b = objs h1 b)
      \<and> next_addr h2 = next_addr h1
      \<and> props (objs h2 t) = foldl (\<lambda>ps (k, v). define_prop k v ps) (props (objs h1 t)) es
      \<and> cls (objs h2 t) = cls (objs h1 t)
      \<and> proto (objs h2 t) = proto (objs h1 t)
      \<and> \<not> frozen (objs h2 t)"
    using fill_object [OF nf, of es] unfolding h2_def Let_def .
  have "Object_fromEntries h es = (Ref t, h2)"
    by (simp add: Object_fromEntries_def n h2_def)
  moreover have "props (objs h2 t) = foldl (\<lambda>ps (k, v). define_prop k v ps) [] es"
    using f a(1) by simp
  moreover have "cls (objs h2 t) = OrdinaryObj" using f a(2) by simp
  moreover have "proto (objs h2 t) = Some Object_prototype" using f a(3) by simp
  moreover have "\<not> frozen (objs h2 t)" using f by simp
  moreover have "\<forall>b. b \<noteq> t \<longrightarrow> objs h2 b = objs h b" using f b by simp
  moreover have "next_addr h2 = Suc t" using f a(4) by simp
  ultimately show ?thesis unfolding t_def by simp
qed

section \<open>Assigning the keys of a source\<close>

lemma get_cong_obj: "objs h' s = objs h s \<Longrightarrow> get h' (Ref s) = get h (Ref s)"
  by (simp add: get_def fun_eq_iff)

text \<open>Whatever is assigned to an object, the others, its class and its mark stay.\<close>

lemma assign_frame:
  assumes "assign_keys h t src ks = Inr h'"
  shows "(\<forall>b. b \<noteq> t \<longrightarrow> objs h' b = objs h b)
      \<and> next_addr h' = next_addr h
      \<and> cls (objs h' t) = cls (objs h t)
      \<and> frozen (objs h' t) = frozen (objs h t)"
  using assms
proof (induction ks arbitrary: h)
  case Nil
  then show ?case by simp
next
  case (Cons k ks)
  show ?case
  proof (cases "set_property h t k (get h src k)")
    case (Inl e)
    with Cons.prems show ?thesis by simp
  next
    case (Inr h1)
    with Cons.prems have "assign_keys h1 t src ks = Inr h'" by simp
    from Cons.IH [OF this] set_property_result [OF Inr] show ?thesis by simp
  qed
qed

text \<open>
  The keys of a source, each once, assigned to an unfrozen target: when every
  assignment is accepted, every key but \<^verbatim>\<open>__proto__\<close> has become an own property of
  the target. The key \<^verbatim>\<open>__proto__\<close> reaches the accessor of \<^verbatim>\<open>Object.prototype\<close>.
\<close>

lemma assign_fill:
  assumes "assign_keys h t (Ref s) ks = Inr h'"
    and "\<not> frozen (objs h t)" and "s \<noteq> t" and "distinct ks"
    and "proto_key \<in> set ks \<Longrightarrow>
           proto_key \<notin> fst ` set (props (objs h t)) \<and> t \<noteq> Object_prototype
           \<and> proto (objs h t) = Some Object_prototype
           \<and> proto_key \<notin> fst ` set (props (objs h Object_prototype))
           \<and> 0 < next_addr h"
  shows "props (objs h' t)
      = foldl (\<lambda>ps key. define_prop key (get h (Ref s) key) ps) (props (objs h t))
          (filter (\<lambda>k. k \<noteq> proto_key) ks)"
  using assms(1,2,4,5)
proof (induction ks arbitrary: h)
  case Nil
  then show ?case by simp
next
  case (Cons k ks)
  obtain h1 where h1: "set_property h t k (get h (Ref s) k) = Inr h1"
    and rest: "assign_keys h1 t (Ref s) ks = Inr h'"
    using Cons.prems(1) by (cases "set_property h t k (get h (Ref s) k)") simp_all
  have res: "(\<forall>b. b \<noteq> t \<longrightarrow> objs h1 b = objs h b)" "next_addr h1 = next_addr h"
    "frozen (objs h1 t) = frozen (objs h t)"
    using set_property_result [OF h1] by simp_all
  have nf: "\<not> frozen (objs h1 t)" using res(3) Cons.prems(2) by simp
  have g: "get h1 (Ref s) = get h (Ref s)"
    by (rule get_cong_obj) (simp add: res(1) assms(3))
  have d: "distinct ks" and nk: "k \<notin> set ks" using Cons.prems(3) by simp_all
  show ?case
  proof (cases "k = proto_key")
    case True
    have acc: "proto_key \<notin> fst ` set (props (objs h t)) \<and> t \<noteq> Object_prototype
           \<and> proto (objs h t) = Some Object_prototype
           \<and> proto_key \<notin> fst ` set (props (objs h Object_prototype))
           \<and> 0 < next_addr h"
      using Cons.prems(4) True by simp
    have "set_property h t proto_key (get h (Ref s) k) = set_prototype h t (get h (Ref s) k)"
      using acc by (intro set_property_accessor) simp_all
    then have "set_prototype h t (get h (Ref s) k) = Inr h1" using h1 True by simp
    then have same: "props (objs h1 t) = props (objs h t)"
      using set_prototype_result by blast
    have no: "proto_key \<notin> set ks" using nk True by simp
    have "props (objs h' t)
      = foldl (\<lambda>ps key. define_prop key (get h (Ref s) key) ps) (props (objs h t))
          (filter (\<lambda>k. k \<noteq> proto_key) ks)"
      using Cons.IH [OF rest nf d] no by (simp add: g same)
    then show ?thesis using True by simp
  next
    case False
    have c: "h1 = create_data_property h t k (get h (Ref s) k)"
      using set_property_data [OF False h1] by simp
    have same: "props (objs h1 t) = define_prop k (get h (Ref s) k) (props (objs h t))"
      "proto (objs h1 t) = proto (objs h t)"
      unfolding c using create_data_property_same [OF Cons.prems(2)] by simp_all
    have keep: "proto_key \<in> set ks \<Longrightarrow>
           proto_key \<notin> fst ` set (props (objs h1 t)) \<and> t \<noteq> Object_prototype
           \<and> proto (objs h1 t) = Some Object_prototype
           \<and> proto_key \<notin> fst ` set (props (objs h1 Object_prototype))
           \<and> 0 < next_addr h1"
    proof -
      assume m: "proto_key \<in> set ks"
      then have acc: "proto_key \<notin> fst ` set (props (objs h t))" "t \<noteq> Object_prototype"
        "proto (objs h t) = Some Object_prototype"
        "proto_key \<notin> fst ` set (props (objs h Object_prototype))" "0 < next_addr h"
        using Cons.prems(4) by simp_all
      have "objs h1 Object_prototype = objs h Object_prototype" using res(1) acc(2) by simp
      moreover have "proto_key \<notin> fst ` set (props (objs h1 t))"
        using acc(1) False by (simp add: same(1) keys_define_prop)
      ultimately show ?thesis using acc same(2) res(2) by simp
    qed
    have "props (objs h' t)
      = foldl (\<lambda>ps key. define_prop key (get h (Ref s) key) ps)
          (define_prop k (get h (Ref s) k) (props (objs h t)))
          (filter (\<lambda>k. k \<noteq> proto_key) ks)"
      using Cons.IH [OF rest nf d keep] by (simp add: g same(1))
    then show ?thesis using False by simp
  qed
qed

text \<open>
  Below an \<^verbatim>\<open>Object.prototype\<close> without enumerable properties, a source without the
  key \<^verbatim>\<open>__proto__\<close> is assigned to an unfrozen target without a rejection.
\<close>

lemma assign_returns:
  assumes "\<not> frozen (objs h t)" and "t \<noteq> Object_prototype"
    and "proto (objs h t) = Some Object_prototype"
    and "props (objs h Object_prototype) = []"
    and "proto (objs h Object_prototype) = None"
    and "proto_key \<notin> set ks"
  shows "\<exists>h'. assign_keys h t src ks = Inr h'"
  using assms(1,3,4,5,6)
proof (induction ks arbitrary: h)
  case Nil
  show ?case by simp
next
  case (Cons k ks)
  define h1 where "h1 = create_data_property h t k (get h src k)"
  have k: "k \<noteq> proto_key" and no: "proto_key \<notin> set ks" using Cons.prems(5) by auto
  have s: "set_property h t k (get h src k) = Inr h1"
    unfolding h1_def
    by (rule set_property_fresh [OF Cons.prems(1) assms(2) Cons.prems(2,3,4) k])
  have same: "\<not> frozen (objs h1 t)" "proto (objs h1 t) = Some Object_prototype"
    unfolding h1_def using create_data_property_same [OF Cons.prems(1)] Cons.prems(2)
    by simp_all
  have op: "objs h1 Object_prototype = objs h Object_prototype"
    unfolding h1_def using assms(2) by (simp add: create_data_property_other)
  have "\<exists>h'. assign_keys h1 t src ks = Inr h'"
    using Cons.IH [OF same] Cons.prems(3,4) no by (simp add: op)
  then show ?case by (simp add: s)
qed

lemma map_of_fill_keys:
  "map_of (foldl (\<lambda>ps key. define_prop key (g key) ps) ps0 ks)
     = (\<lambda>k. if k \<in> set ks then Some (g k) else map_of ps0 k)"
  by (induction ks arbitrary: ps0) (auto simp: fun_eq_iff map_of_define_prop)

lemma map_of_copy:
  "map_of (foldl (\<lambda>ps key. define_prop key
        (case map_of src key of Some w \<Rightarrow> w | None \<Rightarrow> Undefined) ps) []
        (filter (\<lambda>k. k \<noteq> proto_key) (map fst src)))
     = (map_of src)(proto_key := None)"
proof
  fix k
  show "map_of (foldl (\<lambda>ps key. define_prop key
        (case map_of src key of Some w \<Rightarrow> w | None \<Rightarrow> Undefined) ps) []
        (filter (\<lambda>k. k \<noteq> proto_key) (map fst src))) k
     = ((map_of src)(proto_key := None)) k"
  proof (cases "map_of src k")
    case None
    then have "k \<notin> fst ` set src" by (simp add: map_of_eq_None_iff)
    with None show ?thesis by (simp add: map_of_fill_keys)
  next
    case (Some w)
    then have "(k, w) \<in> set src" by (rule map_of_SomeD)
    then have "k \<in> fst ` set src" by (rule rev_image_eqI) simp
    with Some show ?thesis by (simp add: map_of_fill_keys)
  qed
qed

text \<open>What \<^verbatim>\<open>Record\<close> returns, for an object of the heap.\<close>

lemma Record_result:
  assumes "s < next_addr h" and "Record h (Ref s) = Inr (m, h1)"
  shows "m = Ref (next_addr h)
     \<and> cls (objs h1 (next_addr h)) = OrdinaryObj
     \<and> frozen (objs h1 (next_addr h))
     \<and> (\<forall>b. b \<noteq> next_addr h \<longrightarrow> objs h1 b = objs h b)
     \<and> (distinct (map fst (props (objs h s)))
          \<and> (standard_Object_prototype h \<or> proto_key \<notin> fst ` set (props (objs h s))) \<longrightarrow>
          map_of (props (objs h1 (next_addr h))) = (map_of (props (objs h s)))(proto_key := None))"
proof -
  define t where "t = next_addr h"
  define h0 where "h0 = snd (new_object h)"
  have st: "s \<noteq> t" using assms(1) unfolding t_def by simp
  have top: "t \<noteq> Object_prototype" using assms(1) unfolding t_def Object_prototype_def by simp
  have n: "new_object h = (Ref t, h0)" by (simp add: new_object_def alloc_def t_def h0_def)
  have nf: "\<not> frozen (objs h0 t)" by (simp add: new_object_def alloc_def t_def h0_def)
  have a: "props (objs h0 t) = []" "cls (objs h0 t) = OrdinaryObj"
    "proto (objs h0 t) = Some Object_prototype" "next_addr h0 = Suc t"
    by (simp_all add: new_object_def alloc_def t_def h0_def)
  have b: "\<And>b. b \<noteq> t \<Longrightarrow> objs h0 b = objs h b"
    by (simp add: new_object_def alloc_def t_def h0_def)
  have src: "objs h0 s = objs h s" using b st by simp
  obtain h2 where h2: "assign_keys h0 t (Ref s) (Object_keys h0 (Ref s)) = Inr h2"
    and r: "Inr (Object_freeze h2 (Ref t)) = (Inr (m, h1) :: error + val \<times> heap)"
    using assms(2)
    by (cases "assign_keys h0 t (Ref s) (Object_keys h0 (Ref s))")
      (simp_all add: Record_def n Object_assign_def)
  have m: "m = Ref t" and h1: "h1 = h2\<lparr>objs := (objs h2)(t := (objs h2 t)\<lparr>frozen := True\<rparr>)\<rparr>"
    using r by (simp_all add: Object_freeze_def)
  have f: "(\<forall>b. b \<noteq> t \<longrightarrow> objs h2 b = objs h0 b) \<and> cls (objs h2 t) = cls (objs h0 t)"
    using assign_frame [OF h2] by blast
  have "cls (objs h1 t) = OrdinaryObj" using f a(2) by (simp add: h1)
  moreover have "frozen (objs h1 t)" by (simp add: h1)
  moreover have "\<forall>b. b \<noteq> t \<longrightarrow> objs h1 b = objs h b" using f b by (simp add: h1)
  moreover have "distinct (map fst (props (objs h s)))
          \<and> (standard_Object_prototype h \<or> proto_key \<notin> fst ` set (props (objs h s))) \<longrightarrow>
      map_of (props (objs h1 t)) = (map_of (props (objs h s)))(proto_key := None)"
  proof
    assume d: "distinct (map fst (props (objs h s)))
          \<and> (standard_Object_prototype h \<or> proto_key \<notin> fst ` set (props (objs h s)))"
    then have dk: "distinct (Object_keys h0 (Ref s))" by (simp add: Object_keys_def src)
    have acc: "proto_key \<in> set (Object_keys h0 (Ref s)) \<Longrightarrow>
           proto_key \<notin> fst ` set (props (objs h0 t)) \<and> t \<noteq> Object_prototype
           \<and> proto (objs h0 t) = Some Object_prototype
           \<and> proto_key \<notin> fst ` set (props (objs h0 Object_prototype))
           \<and> 0 < next_addr h0"
    proof -
      assume "proto_key \<in> set (Object_keys h0 (Ref s))"
      then have "standard_Object_prototype h" using d by (simp add: Object_keys_def src)
      then have "props (objs h0 Object_prototype) = []"
        using top b [of Object_prototype] by (auto simp: standard_Object_prototype_def)
      then show ?thesis using a top by simp
    qed
    have "props (objs h2 t)
      = foldl (\<lambda>ps key. define_prop key (get h0 (Ref s) key) ps) (props (objs h0 t))
          (filter (\<lambda>k. k \<noteq> proto_key) (Object_keys h0 (Ref s)))"
      by (rule assign_fill [OF h2 nf st dk acc])
    then have "props (objs h1 t) = foldl (\<lambda>ps key. define_prop key
        (case map_of (props (objs h s)) key of Some w \<Rightarrow> w | None \<Rightarrow> Undefined) ps) []
        (filter (\<lambda>k. k \<noteq> proto_key) (map fst (props (objs h s))))"
      using a(1) by (simp add: h1 get_def Object_keys_def src)
    then show "map_of (props (objs h1 t)) = (map_of (props (objs h s)))(proto_key := None)"
      by (simp only: map_of_copy)
  qed
  ultimately show ?thesis using m unfolding t_def by blast
qed

text \<open>
  \<^verbatim>\<open>Record\<close> returns on every object without the key \<^verbatim>\<open>__proto__\<close>, when
  \<^verbatim>\<open>Object.prototype\<close> is as the realm makes it.
\<close>

lemma Record_returns:
  assumes "s < next_addr h" and "standard_Object_prototype h"
    and "proto_key \<notin> set (Object_keys h (Ref s))"
  shows "\<exists>m h1. Record h (Ref s) = Inr (m, h1)"
proof -
  define t where "t = next_addr h"
  define h0 where "h0 = snd (new_object h)"
  have st: "s \<noteq> t" using assms(1) unfolding t_def by simp
  have top: "t \<noteq> Object_prototype" using assms(1) unfolding t_def Object_prototype_def by simp
  have n: "new_object h = (Ref t, h0)" by (simp add: new_object_def alloc_def t_def h0_def)
  have nf: "\<not> frozen (objs h0 t)" by (simp add: new_object_def alloc_def t_def h0_def)
  have a: "proto (objs h0 t) = Some Object_prototype"
    by (simp add: new_object_def alloc_def t_def h0_def)
  have b: "\<And>b. b \<noteq> t \<Longrightarrow> objs h0 b = objs h b"
    by (simp add: new_object_def alloc_def t_def h0_def)
  have std: "props (objs h0 Object_prototype) = []" "proto (objs h0 Object_prototype) = None"
    using assms(2) top b [of Object_prototype] by (auto simp: standard_Object_prototype_def)
  have keys: "proto_key \<notin> set (Object_keys h0 (Ref s))"
    using assms(3) b [OF st] by (simp add: Object_keys_def)
  obtain h2 where "assign_keys h0 t (Ref s) (Object_keys h0 (Ref s)) = Inr h2"
    using assign_returns [OF nf top a std keys] by blast
  then show ?thesis
    by (cases "Object_freeze h2 (Ref t)") (simp add: Record_def n Object_assign_def)
qed

section \<open>Fresh arrays\<close>

lemma map_of_indexed:
  "map_of (map (\<lambda>i. (Index i, f i)) ns) (Index i) = (if i \<in> set ns then Some (f i) else None)"
  by (induction ns) auto

lemma new_array_result:
  "new_array h vs = (Ref (next_addr h),
     h\<lparr>objs := (objs h)(next_addr h :=
          \<lparr>cls = ArrayObj, proto = Some Array_prototype, len = length vs,
           props = map (\<lambda>i. (Index i, vs ! i)) [0 ..< length vs], frozen = False\<rparr>),
       next_addr := Suc (next_addr h)\<rparr>)"
  by (simp add: new_array_def alloc_def)

section \<open>Evaluating the examples\<close>

lemmas build_defs = Tuple_of_def Tuple_def new_array_def alloc_def Object_freeze_def
  Record_fromEntries_def Object_fromEntries_def new_object_def set_property_def
  create_data_property_def proto_key_def find_property_None find_property_Some
  Record_fromObject_def Record_def Object_assign_def object_literal_def
  Object_keys_def get_def realm_def blank_def Object_prototype_def Array_prototype_def
  Function_prototype_def Object_create_def new_function_def

lemma two_objects_eval:
  "two_objects = \<lparr>objs = (objs realm)
      (3 := \<lparr>cls = OrdinaryObj, proto = Some 0, len = 0,
         props = [(Name ''a'', Number (Fin 1)), (Name ''b'', Number (Fin 2))], frozen = False\<rparr>,
       4 := \<lparr>cls = OrdinaryObj, proto = Some 0, len = 0,
         props = [(Name ''b'', Number (Fin 2)), (Name ''a'', Number (Fin 1))], frozen = False\<rparr>),
     next_addr = 5\<rparr>"
  by (simp add: two_objects_def build_defs)

lemma unit_test_eval:
  "unit_test = (Ref 4, Ref 7,
     \<lparr>objs = (objs realm)
      (3 := \<lparr>cls = OrdinaryObj, proto = Some 0, len = 0,
         props = [(Name ''a'', Number (Fin 1)), (Name ''b'', Number (Fin 2))], frozen = True\<rparr>,
       4 := \<lparr>cls = ArrayObj, proto = Some 1, len = 3,
         props = [(Index 0, Number (Fin 4)), (Index 1, Number (Fin 5)), (Index 2, Ref 3)],
         frozen = True\<rparr>,
       5 := \<lparr>cls = OrdinaryObj, proto = Some 0, len = 0,
         props = [(Name ''a'', Number (Fin 1)), (Name ''b'', Number (Fin 2))], frozen = False\<rparr>,
       6 := \<lparr>cls = OrdinaryObj, proto = Some 0, len = 0,
         props = [(Name ''a'', Number (Fin 1)), (Name ''b'', Number (Fin 2))], frozen = True\<rparr>,
       7 := \<lparr>cls = ArrayObj, proto = Some 1, len = 3,
         props = [(Index 0, Number (Fin 4)), (Index 1, Number (Fin 5)), (Index 2, Ref 6)],
         frozen = True\<rparr>),
     next_addr = 8\<rparr>)"
  by (auto simp: unit_test_def build_defs upt_rec fun_eq_iff)

lemmas heap_evals = Array_isArray_def isObject_inner_def loosely_null_def typeof_def
  Number_isNaN_def Object_getPrototypeOf_def length_of_def Object_isFrozen_def

section \<open>The properties\<close>

text \<open>
  C1. Let \<open>x\<close> and \<open>y\<close> be two different objects (non-null values whose \<^verbatim>\<open>typeof\<close> is
  \<^verbatim>\<open>"object"\<close>), neither of them an array. Then \<^verbatim>\<open>isEqual(x, y)\<close> returns true exactly
  when they have the same prototype, the same number of own enumerable keys, and every
  key of \<open>x\<close> is a key of \<open>y\<close> with \<^verbatim>\<open>isEqual(x[key], y[key])\<close> returning true; on
  non-cyclic values the call returns a boolean, so it returns false otherwise. Objects
  with different prototypes compare unequal whatever their keys and values. The result
  does not depend on the order in which the keys of the objects are listed: a true
  result always, and every result on non-cyclic values, is the same in a heap that
  lists the same properties in another order (an object has each of its keys once).
\<close>

theorem isEqual_objects_by_keys:
  assumes "isObject_inner h x" and "isObject_inner h y"
    and "\<not> Array_isArray h x" and "\<not> Array_isArray h y" and "x \<noteq> y"
  shows
    "(returns h x y True \<longleftrightarrow>
        Object_getPrototypeOf h x = Object_getPrototypeOf h y
        \<and> length (Object_keys h x) = length (Object_keys h y)
        \<and> (\<forall>key\<in>set (Object_keys h x).
              key \<in> set (Object_keys h y) \<and> returns h (get h x key) (get h y key) True))
     \<and> (depth_le d h x \<or> depth_le d h y \<longrightarrow> (\<exists>b. returns h x y b))
     \<and> (Object_getPrototypeOf h x \<noteq> Object_getPrototypeOf h y
          \<longrightarrow> Tuple_isEqual (Suc n) h x y = Some False)
     \<and> (distinct_keys h \<and> same_up_to_key_order h h'
          \<longrightarrow> (returns h' x y True \<longleftrightarrow> returns h x y True))
     \<and> (distinct_keys h \<and> same_up_to_key_order h h' \<and> (depth_le d h x \<or> depth_le d h y)
          \<and> d < fuel
          \<longrightarrow> Tuple_isEqual fuel h' x y = Tuple_isEqual fuel h x y)"
proof -
  obtain a where a: "x = Ref a" using assms(1) object_is_ref by blast
  have nl: "\<not> (strict_equal x y \<or> (Number_isNaN x \<and> Number_isNaN y))"
    using a assms(5) by (rule refs_not_leaf)
  have na: "\<not> (Array_isArray h x \<and> Array_isArray h y)" using assms(3) by simp
  have c1: "returns h x y True \<longleftrightarrow>
        Object_getPrototypeOf h x = Object_getPrototypeOf h y
        \<and> length (Object_keys h x) = length (Object_keys h y)
        \<and> (\<forall>key\<in>set (Object_keys h x).
              key \<in> set (Object_keys h y) \<and> returns h (get h x key) (get h y key) True)"
    by (rule objects_return_True [OF nl na assms(1,2)])
  have c2: "depth_le d h x \<or> depth_le d h y \<longrightarrow> (\<exists>b. returns h x y b)"
    using returns_total by blast
  have c3: "Object_getPrototypeOf h x \<noteq> Object_getPrototypeOf h y
          \<longrightarrow> Tuple_isEqual (Suc n) h x y = Some False"
    unfolding Tuple_isEqual_def isEqual_objects [OF nl na assms(1,2)] proto_strict_equal
    by simp
  have c4: "distinct_keys h \<and> same_up_to_key_order h h'
          \<longrightarrow> (returns h' x y True \<longleftrightarrow> returns h x y True)"
    unfolding returns_inner using reorder_True by blast
  have c5: "distinct_keys h \<and> same_up_to_key_order h h' \<and> (depth_le d h x \<or> depth_le d h y)
          \<and> d < fuel
          \<longrightarrow> Tuple_isEqual fuel h' x y = Tuple_isEqual fuel h x y"
    unfolding Tuple_isEqual_def using reorder_result by blast
  from c1 c2 c3 c4 c5 show ?thesis by blast
qed

text \<open>
  On \<^verbatim>\<open>{a: 1, b: 2}\<close> and \<^verbatim>\<open>{b: 2, a: 1}\<close> the call returns true, also when the keys
  of the first are listed in the opposite order; \<^verbatim>\<open>{}\<close> and \<^verbatim>\<open>Object.create(null)\<close>
  compare unequal.
\<close>

theorem isEqual_objects_by_keys_witness:
  "returns two_objects (Ref 3) (Ref 4) True
   \<and> returns two_objects_reordered (Ref 3) (Ref 4) True
   \<and> Tuple_isEqual 2 two_objects_reordered (Ref 3) (Ref 4)
       = Tuple_isEqual 2 two_objects (Ref 3) (Ref 4)
   \<and> Tuple_isEqual 1 null_proto_heap (Ref 3) (Ref 4) = Some False"
proof -
  have shape: "isObject_inner two_objects (Ref 3)" "isObject_inner two_objects (Ref 4)"
    "\<not> Array_isArray two_objects (Ref 3)" "\<not> Array_isArray two_objects (Ref 4)"
    "Ref 3 \<noteq> Ref 4"
    by (simp_all add: two_objects_eval heap_evals)
  have dk: "distinct_keys two_objects"
    by (simp add: two_objects_eval distinct_keys_def realm_def blank_def)
  have so: "same_up_to_key_order two_objects two_objects_reordered"
    by (simp add: two_objects_reordered_def two_objects_eval same_up_to_key_order_def
        realm_def blank_def)
  have d: "depth_le 1 two_objects (Ref 3)"
    by (simp add: two_objects_eval)
  have rhs: "Object_getPrototypeOf two_objects (Ref 3) = Object_getPrototypeOf two_objects (Ref 4)
        \<and> length (Object_keys two_objects (Ref 3)) = length (Object_keys two_objects (Ref 4))
        \<and> (\<forall>key\<in>set (Object_keys two_objects (Ref 3)).
              key \<in> set (Object_keys two_objects (Ref 4))
              \<and> returns two_objects (get two_objects (Ref 3) key)
                   (get two_objects (Ref 4) key) True)"
    by (simp add: two_objects_eval heap_evals Object_keys_def get_def returns_leaf
        number_equal_def)
  have shape': "isObject_inner null_proto_heap (Ref 3)" "isObject_inner null_proto_heap (Ref 4)"
    "\<not> Array_isArray null_proto_heap (Ref 3)" "\<not> Array_isArray null_proto_heap (Ref 4)"
    "Ref 3 \<noteq> Ref 4"
    "Object_getPrototypeOf null_proto_heap (Ref 3) \<noteq> Object_getPrototypeOf null_proto_heap (Ref 4)"
    by (simp_all add: null_proto_heap_def Object_create_def build_defs heap_evals)
  show ?thesis
    using isEqual_objects_by_keys [OF shape(1-5), of 1 0 two_objects_reordered 2]
      isEqual_objects_by_keys [OF shape'(1-5), of 0 0 null_proto_heap 1]
      rhs dk so d shape'(6)
    by simp
qed

text \<open>
  C2. Let \<open>x\<close> and \<open>y\<close> be two different arrays. If their lengths differ,
  \<^verbatim>\<open>isEqual(x, y)\<close> returns false; if both are empty it returns true; it returns true
  exactly when the lengths agree and \<^verbatim>\<open>isEqual(x[i], y[i])\<close> returns true at every
  index, and false exactly when the lengths differ or some index compares false after
  all earlier indices compared true (the later ones are not looked at). In particular
  \<^verbatim>\<open>isEqual(Tuple.of(1, 2), Tuple.of(1, 2, 3))\<close> is false, in every heap.
\<close>

theorem isEqual_arrays_elementwise:
  assumes "Array_isArray h x" and "Array_isArray h y" and "x \<noteq> y"
  shows
    "(length_of h x \<noteq> length_of h y \<longrightarrow> Tuple_isEqual (Suc n) h x y = Some False)
     \<and> (length_of h x = 0 \<and> length_of h y = 0 \<longrightarrow> Tuple_isEqual (Suc n) h x y = Some True)
     \<and> (returns h x y True \<longleftrightarrow>
          length_of h x = length_of h y
          \<and> (\<forall>i<length_of h x. returns h (get h x (Index i)) (get h y (Index i)) True))
     \<and> (returns h x y False \<longleftrightarrow>
          length_of h x \<noteq> length_of h y
          \<or> (\<exists>i<length_of h x. returns h (get h x (Index i)) (get h y (Index i)) False
               \<and> (\<forall>j<i. returns h (get h x (Index j)) (get h y (Index j)) True)))
     \<and> (case Tuple_of h [Number (Fin 1), Number (Fin 2)] of (s, h1) \<Rightarrow>
          case Tuple_of h1 [Number (Fin 1), Number (Fin 2), Number (Fin 3)] of (t, h2) \<Rightarrow>
            Tuple_isEqual (Suc n) h2 s t = Some False)"
proof -
  obtain a where a: "x = Ref a" using assms(1) array_is_ref by blast
  have nl: "\<not> (strict_equal x y \<or> (Number_isNaN x \<and> Number_isNaN y))"
    using a assms(3) by (rule refs_not_leaf)
  have c1: "length_of h x \<noteq> length_of h y \<longrightarrow> Tuple_isEqual (Suc n) h x y = Some False"
    unfolding Tuple_isEqual_def isEqual_arrays [OF nl assms(1,2)] by simp
  have c2: "length_of h x = 0 \<and> length_of h y = 0 \<longrightarrow> Tuple_isEqual (Suc n) h x y = Some True"
    unfolding Tuple_isEqual_def isEqual_arrays [OF nl assms(1,2)] by simp
  note c3 = arrays_return_True [OF nl assms(1,2)]
  note c4 = arrays_return_False [OF nl assms(1,2)]
  have c5: "case Tuple_of h [Number (Fin 1), Number (Fin 2)] of (s, h1) \<Rightarrow>
          case Tuple_of h1 [Number (Fin 1), Number (Fin 2), Number (Fin 3)] of (t, h2) \<Rightarrow>
            Tuple_isEqual (Suc n) h2 s t = Some False"
    by (simp add: Tuple_isEqual_def build_defs isEqual_inner.simps heap_evals)
  from c1 c2 c3 c4 c5 show ?thesis by blast
qed

text \<open>
  The two tuples of different lengths compare unequal; the two tuples of the unit test
  compare equal, and not unequal.
\<close>

theorem isEqual_arrays_elementwise_witness:
  "Tuple_isEqual 1 two_tuples (Ref 3) (Ref 4) = Some False
   \<and> returns (snd (snd unit_test)) (Ref 4) (Ref 7) True
   \<and> \<not> returns (snd (snd unit_test)) (Ref 4) (Ref 7) False"
proof -
  have shape: "Array_isArray two_tuples (Ref 3)" "Array_isArray two_tuples (Ref 4)"
    "Ref 3 \<noteq> Ref 4" "length_of two_tuples (Ref 3) \<noteq> length_of two_tuples (Ref 4)"
    by (simp_all add: two_tuples_def build_defs heap_evals)
  have shape': "Array_isArray (snd (snd unit_test)) (Ref 4)"
    "Array_isArray (snd (snd unit_test)) (Ref 7)" "Ref 4 \<noteq> Ref 7"
    by (simp_all add: unit_test_eval heap_evals)
  have inner: "Tuple_isEqual 2 (snd (snd unit_test)) (Ref 3) (Ref 6) = Some True"
    by (simp add: unit_test_eval Tuple_isEqual_def isEqual_inner.simps heap_evals
        Object_keys_def get_def realm_def blank_def number_equal_def numeral_2_eq_2)
  have all: "length_of (snd (snd unit_test)) (Ref 4) = length_of (snd (snd unit_test)) (Ref 7)
     \<and> (\<forall>i<length_of (snd (snd unit_test)) (Ref 4).
           returns (snd (snd unit_test)) (get (snd (snd unit_test)) (Ref 4) (Index i))
             (get (snd (snd unit_test)) (Ref 7) (Index i)) True)"
    using returns_fuel [OF inner]
    by (simp add: unit_test_eval heap_evals get_def returns_leaf number_equal_def
        less_Suc_eq numeral_3_eq_3)
  have t: "returns (snd (snd unit_test)) (Ref 4) (Ref 7) True"
    using isEqual_arrays_elementwise [OF shape', of 0] all by blast
  have "\<not> returns (snd (snd unit_test)) (Ref 4) (Ref 7) False"
    using t returns_unique by blast
  with t isEqual_arrays_elementwise [OF shape(1-3), of 0] shape(4) show ?thesis by simp
qed

text \<open>
  C3. When \<open>x\<close> and \<open>y\<close> are identical (\<^verbatim>\<open>===\<close>: the same primitive, the same
  reference, or the two zeros) or both are \<^verbatim>\<open>NaN\<close>, \<^verbatim>\<open>isEqual(x, y)\<close> returns true, at
  once. Hence \<^verbatim>\<open>isEqual(Tuple.of(1, NaN), Tuple.of(1, NaN))\<close> and
  \<^verbatim>\<open>isEqual(Tuple.of(0), Tuple.of(-0))\<close> are true, in every heap.
\<close>

theorem isEqual_SameValueZero:
  "(strict_equal x y \<or> (Number_isNaN x \<and> Number_isNaN y)
      \<longrightarrow> Tuple_isEqual (Suc n) h x y = Some True)
   \<and> (case Tuple_of h [Number (Fin 1), Number NaN] of (s, h1) \<Rightarrow>
        case Tuple_of h1 [Number (Fin 1), Number NaN] of (t, h2) \<Rightarrow>
          Tuple_isEqual (Suc (Suc n)) h2 s t = Some True)
   \<and> (case Tuple_of h [Number (Fin 0)] of (s, h1) \<Rightarrow>
        case Tuple_of h1 [Number NegZero] of (t, h2) \<Rightarrow>
          Tuple_isEqual (Suc (Suc n)) h2 s t = Some True)"
  by (simp add: Tuple_isEqual_def build_defs isEqual_inner.simps heap_evals
      number_equal_def is_zero_def upt_rec)

text \<open>
  \<^verbatim>\<open>NaN\<close> is not identical to itself and still compares equal; so do the two zeros,
  and a string with itself.
\<close>

theorem isEqual_SameValueZero_witness:
  "Tuple_isEqual 1 realm (Number NaN) (Number NaN) = Some True
   \<and> \<not> strict_equal (Number NaN) (Number NaN)
   \<and> Tuple_isEqual 1 realm (Number NegZero) (Number (Fin 0)) = Some True
   \<and> Tuple_isEqual 1 realm (Str ''a'') (Str ''a'') = Some True"
  using isEqual_SameValueZero [of "Number NaN" "Number NaN" 0 realm]
    isEqual_SameValueZero [of "Number NegZero" "Number (Fin 0)" 0 realm]
    isEqual_SameValueZero [of "Str ''a''" "Str ''a''" 0 realm]
  by (simp add: Number_isNaN_def number_equal_def is_zero_def)

text \<open>
  C4, as the code has it. When exactly one of \<open>x\<close> and \<open>y\<close> is an array and the other
  is a non-array object, the two are compared as objects: \<^verbatim>\<open>isEqual(x, y)\<close> returns
  true exactly when they have the same prototype, the same number of own enumerable
  keys, and every key of \<open>x\<close> is a key of \<open>y\<close> with \<^verbatim>\<open>isEqual(x[key], y[key])\<close>
  returning true; in every other case it returns false on non-cyclic values, and at
  once when the prototypes differ (as those of an array literal and of an object
  literal do) or the numbers of keys differ. Two primitives that are not identical
  and not both \<^verbatim>\<open>NaN\<close> compare unequal.
\<close>

theorem isEqual_mismatched_kinds:
  "((Array_isArray h x \<and> \<not> Array_isArray h y \<and> isObject_inner h y)
      \<or> (Array_isArray h y \<and> \<not> Array_isArray h x \<and> isObject_inner h x)
     \<longrightarrow>
       (returns h x y True \<longleftrightarrow>
          Object_getPrototypeOf h x = Object_getPrototypeOf h y
          \<and> length (Object_keys h x) = length (Object_keys h y)
          \<and> (\<forall>key\<in>set (Object_keys h x).
                key \<in> set (Object_keys h y) \<and> returns h (get h x key) (get h y key) True))
       \<and> ((depth_le d h x \<or> depth_le d h y)
            \<and> \<not> (Object_getPrototypeOf h x = Object_getPrototypeOf h y
                   \<and> length (Object_keys h x) = length (Object_keys h y)
                   \<and> (\<forall>key\<in>set (Object_keys h x).
                         key \<in> set (Object_keys h y)
                         \<and> returns h (get h x key) (get h y key) True))
            \<longrightarrow> returns h x y False)
       \<and> (Object_getPrototypeOf h x \<noteq> Object_getPrototypeOf h y
              \<or> length (Object_keys h x) \<noteq> length (Object_keys h y)
            \<longrightarrow> Tuple_isEqual (Suc n) h x y = Some False))
   \<and> (is_primitive x \<and> is_primitive y \<and> \<not> strict_equal x y
        \<and> \<not> (Number_isNaN x \<and> Number_isNaN y)
     \<longrightarrow> Tuple_isEqual (Suc n) h x y = Some False)"
proof -
  have prim: "is_primitive x \<and> is_primitive y \<and> \<not> strict_equal x y
        \<and> \<not> (Number_isNaN x \<and> Number_isNaN y)
     \<longrightarrow> Tuple_isEqual (Suc n) h x y = Some False"
  proof
  assume p: "is_primitive x \<and> is_primitive y \<and> \<not> strict_equal x y
        \<and> \<not> (Number_isNaN x \<and> Number_isNaN y)"
  have nl: "\<not> (strict_equal x y \<or> (Number_isNaN x \<and> Number_isNaN y))" using p by blast
  have na: "\<not> (Array_isArray h x \<and> Array_isArray h y)"
    using p primitive_not_array by blast
  have no: "\<not> (isObject_inner h x \<and> isObject_inner h y)"
    using p primitive_not_object by blast
  show "Tuple_isEqual (Suc n) h x y = Some False"
    unfolding Tuple_isEqual_def by (rule isEqual_other [OF nl na no])
  qed
  have mixed: "(Array_isArray h x \<and> \<not> Array_isArray h y \<and> isObject_inner h y)
      \<or> (Array_isArray h y \<and> \<not> Array_isArray h x \<and> isObject_inner h x)
     \<longrightarrow>
       (returns h x y True \<longleftrightarrow>
          Object_getPrototypeOf h x = Object_getPrototypeOf h y
          \<and> length (Object_keys h x) = length (Object_keys h y)
          \<and> (\<forall>key\<in>set (Object_keys h x).
                key \<in> set (Object_keys h y) \<and> returns h (get h x key) (get h y key) True))
       \<and> ((depth_le d h x \<or> depth_le d h y)
            \<and> \<not> (Object_getPrototypeOf h x = Object_getPrototypeOf h y
                   \<and> length (Object_keys h x) = length (Object_keys h y)
                   \<and> (\<forall>key\<in>set (Object_keys h x).
                         key \<in> set (Object_keys h y)
                         \<and> returns h (get h x key) (get h y key) True))
            \<longrightarrow> returns h x y False)
       \<and> (Object_getPrototypeOf h x \<noteq> Object_getPrototypeOf h y
              \<or> length (Object_keys h x) \<noteq> length (Object_keys h y)
            \<longrightarrow> Tuple_isEqual (Suc n) h x y = Some False)"
  proof
  assume k: "(Array_isArray h x \<and> \<not> Array_isArray h y \<and> isObject_inner h y)
      \<or> (Array_isArray h y \<and> \<not> Array_isArray h x \<and> isObject_inner h x)"
  have arr_obj: "\<And>v. Array_isArray h v \<Longrightarrow> isObject_inner h v"
    by (auto simp: Array_isArray_def isObject_inner_def loosely_null_def typeof_def
        split: val.splits)
  have ne: "x \<noteq> y" using k by blast
  have ox: "isObject_inner h x" and oy: "isObject_inner h y" using k arr_obj by blast+
  obtain a where a: "x = Ref a" using ox object_is_ref by blast
  have nl: "\<not> (strict_equal x y \<or> (Number_isNaN x \<and> Number_isNaN y))"
    using a ne by (rule refs_not_leaf)
  have na: "\<not> (Array_isArray h x \<and> Array_isArray h y)" using k by blast
  have iff: "returns h x y True \<longleftrightarrow>
          Object_getPrototypeOf h x = Object_getPrototypeOf h y
          \<and> length (Object_keys h x) = length (Object_keys h y)
          \<and> (\<forall>key\<in>set (Object_keys h x).
                key \<in> set (Object_keys h y) \<and> returns h (get h x key) (get h y key) True)"
    by (rule objects_return_True [OF nl na ox oy])
  have other: "(depth_le d h x \<or> depth_le d h y)
            \<and> \<not> (Object_getPrototypeOf h x = Object_getPrototypeOf h y
                   \<and> length (Object_keys h x) = length (Object_keys h y)
                   \<and> (\<forall>key\<in>set (Object_keys h x).
                         key \<in> set (Object_keys h y)
                         \<and> returns h (get h x key) (get h y key) True))
            \<longrightarrow> returns h x y False"
  proof
    assume q: "(depth_le d h x \<or> depth_le d h y)
            \<and> \<not> (Object_getPrototypeOf h x = Object_getPrototypeOf h y
                   \<and> length (Object_keys h x) = length (Object_keys h y)
                   \<and> (\<forall>key\<in>set (Object_keys h x).
                         key \<in> set (Object_keys h y)
                         \<and> returns h (get h x key) (get h y key) True))"
    then obtain b where b: "returns h x y b" using returns_total by blast
    have "\<not> returns h x y True" using q iff by blast
    with b show "returns h x y False" by (cases b) simp_all
  qed
  have quick: "Object_getPrototypeOf h x \<noteq> Object_getPrototypeOf h y
              \<or> length (Object_keys h x) \<noteq> length (Object_keys h y)
            \<longrightarrow> Tuple_isEqual (Suc n) h x y = Some False"
    unfolding Tuple_isEqual_def isEqual_objects [OF nl na ox oy] proto_strict_equal
    by auto
  from iff other quick show
    "(returns h x y True \<longleftrightarrow>
          Object_getPrototypeOf h x = Object_getPrototypeOf h y
          \<and> length (Object_keys h x) = length (Object_keys h y)
          \<and> (\<forall>key\<in>set (Object_keys h x).
                key \<in> set (Object_keys h y) \<and> returns h (get h x key) (get h y key) True))
       \<and> ((depth_le d h x \<or> depth_le d h y)
            \<and> \<not> (Object_getPrototypeOf h x = Object_getPrototypeOf h y
                   \<and> length (Object_keys h x) = length (Object_keys h y)
                   \<and> (\<forall>key\<in>set (Object_keys h x).
                         key \<in> set (Object_keys h y)
                         \<and> returns h (get h x key) (get h y key) True))
            \<longrightarrow> returns h x y False)
       \<and> (Object_getPrototypeOf h x \<noteq> Object_getPrototypeOf h y
              \<or> length (Object_keys h x) \<noteq> length (Object_keys h y)
            \<longrightarrow> Tuple_isEqual (Suc n) h x y = Some False)"
    by blast
  qed
  from mixed prim show ?thesis by blast
qed

text \<open>
  \<^verbatim>\<open>[]\<close> and \<^verbatim>\<open>{}\<close> compare unequal in both orders, and so do \<^verbatim>\<open>1\<close> and \<^verbatim>\<open>"1"\<close>. The
  array \<^verbatim>\<open>[1]\<close> and an empty object with the prototype of arrays compare unequal in
  both orders (one key against none); \<^verbatim>\<open>[1]\<close> and an object with that prototype that
  holds \<^verbatim>\<open>1\<close> at the key \<^verbatim>\<open>0\<close> compare equal.
\<close>

theorem isEqual_mismatched_kinds_witness:
  "Tuple_isEqual 1 array_and_object (Ref 3) (Ref 4) = Some False
   \<and> Tuple_isEqual 1 array_and_object (Ref 4) (Ref 3) = Some False
   \<and> Tuple_isEqual 1 realm (Number (Fin 1)) (Str ''1'') = Some False
   \<and> Tuple_isEqual 1 array_likes (Ref 3) (Ref 4) = Some False
   \<and> Tuple_isEqual 1 array_likes (Ref 4) (Ref 3) = Some False
   \<and> returns array_likes (Ref 3) (Ref 5) True
   \<and> returns array_likes (Ref 5) (Ref 3) True"
proof -
  have k: "Array_isArray array_and_object (Ref 3)" "\<not> Array_isArray array_and_object (Ref 4)"
    "isObject_inner array_and_object (Ref 4)"
    "Object_getPrototypeOf array_and_object (Ref 3) \<noteq> Object_getPrototypeOf array_and_object (Ref 4)"
    by (simp_all add: array_and_object_def build_defs heap_evals)
  have p: "is_primitive (Number (Fin 1))" "is_primitive (Str ''1'')"
    "\<not> strict_equal (Number (Fin 1)) (Str ''1'')"
    "\<not> (Number_isNaN (Number (Fin 1)) \<and> Number_isNaN (Str ''1''))"
    by (simp_all add: is_primitive_def Number_isNaN_def)
  have l: "objs array_likes 3 = \<lparr>cls = ArrayObj, proto = Some Array_prototype, len = 1,
        props = [(Index 0, Number (Fin 1))], frozen = False\<rparr>"
    "objs array_likes 4 = \<lparr>cls = OrdinaryObj, proto = Some Array_prototype, len = 0,
        props = [], frozen = False\<rparr>"
    "objs array_likes 5 = \<lparr>cls = OrdinaryObj, proto = Some Array_prototype, len = 0,
        props = [(Index 0, Number (Fin 1))], frozen = False\<rparr>"
    by (simp_all add: array_likes_def build_defs)
  have m: "Array_isArray array_likes (Ref 3)" "\<not> Array_isArray array_likes (Ref 4)"
    "isObject_inner array_likes (Ref 4)" "\<not> Array_isArray array_likes (Ref 5)"
    "isObject_inner array_likes (Ref 5)"
    "length (Object_keys array_likes (Ref 3)) \<noteq> length (Object_keys array_likes (Ref 4))"
    "length (Object_keys array_likes (Ref 4)) \<noteq> length (Object_keys array_likes (Ref 3))"
    by (simp_all add: l heap_evals Object_keys_def)
  have same: "Object_getPrototypeOf array_likes (Ref 3) = Object_getPrototypeOf array_likes (Ref 5)
      \<and> length (Object_keys array_likes (Ref 3)) = length (Object_keys array_likes (Ref 5))
      \<and> (\<forall>key\<in>set (Object_keys array_likes (Ref 3)).
            key \<in> set (Object_keys array_likes (Ref 5))
            \<and> returns array_likes (get array_likes (Ref 3) key)
                 (get array_likes (Ref 5) key) True)"
    "Object_getPrototypeOf array_likes (Ref 5) = Object_getPrototypeOf array_likes (Ref 3)
      \<and> length (Object_keys array_likes (Ref 5)) = length (Object_keys array_likes (Ref 3))
      \<and> (\<forall>key\<in>set (Object_keys array_likes (Ref 5)).
            key \<in> set (Object_keys array_likes (Ref 3))
            \<and> returns array_likes (get array_likes (Ref 5) key)
                 (get array_likes (Ref 3) key) True)"
    by (simp_all add: l heap_evals Object_keys_def get_def returns_leaf number_equal_def)
  have "Tuple_isEqual 1 array_and_object (Ref 3) (Ref 4) = Some False"
    using isEqual_mismatched_kinds [of array_and_object "Ref 3" "Ref 4" 0 0] k by simp
  moreover have "Tuple_isEqual 1 array_and_object (Ref 4) (Ref 3) = Some False"
    using isEqual_mismatched_kinds [of array_and_object "Ref 4" "Ref 3" 0 0] k by simp
  moreover have "Tuple_isEqual 1 realm (Number (Fin 1)) (Str ''1'') = Some False"
    using isEqual_mismatched_kinds [of realm "Number (Fin 1)" "Str ''1''" 0 0] p by simp
  moreover have "Tuple_isEqual 1 array_likes (Ref 3) (Ref 4) = Some False"
    using isEqual_mismatched_kinds [of array_likes "Ref 3" "Ref 4" 0 0] m by simp
  moreover have "Tuple_isEqual 1 array_likes (Ref 4) (Ref 3) = Some False"
    using isEqual_mismatched_kinds [of array_likes "Ref 4" "Ref 3" 0 0] m by simp
  moreover have "returns array_likes (Ref 3) (Ref 5) True"
    using isEqual_mismatched_kinds [of array_likes "Ref 3" "Ref 5" 0 0] m same(1) by blast
  moreover have "returns array_likes (Ref 5) (Ref 3) True"
    using isEqual_mismatched_kinds [of array_likes "Ref 5" "Ref 3" 0 0] m same(2) by blast
  ultimately show ?thesis by blast
qed

text \<open>
  So an array and a non-array object can compare equal: \<^verbatim>\<open>[]\<close> is an array,
  \<^verbatim>\<open>Object.create(Array.prototype)\<close> is an object and not an array, both have the
  same prototype and no keys, and \<^verbatim>\<open>isEqual\<close> returns true on them.
\<close>

theorem isEqual_mismatched_kinds_counterexample:
  "Array_isArray mixed_heap (Ref 3) \<and> \<not> Array_isArray mixed_heap (Ref 4)
   \<and> isObject_inner mixed_heap (Ref 4) \<and> Ref 3 \<noteq> Ref 4
   \<and> Tuple_isEqual 1 mixed_heap (Ref 3) (Ref 4) = Some True"
  by (simp add: mixed_heap_def Object_create_def build_defs Tuple_isEqual_def isEqual_inner.simps
      heap_evals)

text \<open>
  C5. \<^verbatim>\<open>isEqual\<close> is total on non-cyclic values: when the objects under \<open>x\<close> nest
  at most \<open>d\<close> deep and those under \<open>y\<close> at most \<open>e\<close> deep, the call returns a
  boolean, the same one for every bound on the nesting of calls above \<open>min d e\<close>. No
  branch of the function raises.
\<close>

theorem isEqual_total:
  "depth_le d h x \<Longrightarrow> depth_le e h y \<Longrightarrow>
     \<exists>b. \<forall>fuel>min d e. Tuple_isEqual fuel h x y = Some b"
proof -
  assume dx: "depth_le d h x" and dy: "depth_le e h y"
  have "depth_le (min d e) h x \<or> depth_le (min d e) h y"
    using dx dy by (cases "d \<le> e") (simp_all add: min_def)
  then obtain b where b: "isEqual_inner (Suc (min d e)) h x y = Some b"
    using isEqual_inner_total by blast
  have "\<forall>fuel>min d e. Tuple_isEqual fuel h x y = Some b"
    unfolding Tuple_isEqual_def using fuel_mono [OF b] by (simp add: Suc_le_eq)
  then show ?thesis by blast
qed

text \<open>
  The two tuples of the unit test nest two deep, and the comparison returns.
\<close>

theorem isEqual_total_witness:
  "\<exists>b. Tuple_isEqual 3 (snd (snd unit_test)) (fst unit_test) (fst (snd unit_test)) = Some b"
proof -
  have d: "depth_le 2 (snd (snd unit_test)) (fst unit_test)"
    "depth_le 2 (snd (snd unit_test)) (fst (snd unit_test))"
    by (simp_all add: unit_test_def build_defs upt_rec numeral_2_eq_2)
  from isEqual_total [OF d] show ?thesis by auto
qed

text \<open>
  C6, as the code has it. \<^verbatim>\<open>Record.isRecord(v)\<close> is true exactly when \<open>v\<close> is an object
  whose \<^verbatim>\<open>typeof\<close> is \<^verbatim>\<open>"object"\<close> (not null, not a primitive, not a function) and
  that is frozen. It does not tell a record from any other frozen object: it is true
  of the result of \<^verbatim>\<open>Record(O)\<close> and of a tuple, and false of an object literal, which
  is not frozen. (\<^verbatim>\<open>Record(O)\<close> has a result unless an assignment to the copy is
  rejected, which takes an own key \<^verbatim>\<open>__proto__\<close> of \<open>O\<close> or an \<^verbatim>\<open>Object.prototype\<close>
  that the program has changed.)
\<close>

theorem isRecord_frozen_object:
  "(Record_isRecord h v \<longleftrightarrow> (\<exists>a. v = Ref a \<and> cls (objs h a) \<noteq> FunctionObj \<and> frozen (objs h a)))
   \<and> (s < next_addr h \<longrightarrow>
        (case Record h (Ref s) of
           Inl e \<Rightarrow> proto_key \<in> set (Object_keys h (Ref s)) \<or> \<not> standard_Object_prototype h
         | Inr (m, h1) \<Rightarrow> Record_isRecord h1 m))
   \<and> (case Tuple h vs of (t, h1) \<Rightarrow> Record_isRecord h1 t)
   \<and> (case object_literal h ps of (p, h1) \<Rightarrow> \<not> Record_isRecord h1 p)"
proof -
  have c1: "Record_isRecord h v \<longleftrightarrow>
      (\<exists>a. v = Ref a \<and> cls (objs h a) \<noteq> FunctionObj \<and> frozen (objs h a))"
    by (cases v) (simp_all add: Record_isRecord_def loosely_null_def typeof_def Object_isFrozen_def)
  have c2: "s < next_addr h \<longrightarrow>
        (case Record h (Ref s) of
           Inl e \<Rightarrow> proto_key \<in> set (Object_keys h (Ref s)) \<or> \<not> standard_Object_prototype h
         | Inr (m, h1) \<Rightarrow> Record_isRecord h1 m)"
  proof
    assume s: "s < next_addr h"
    show "case Record h (Ref s) of
           Inl e \<Rightarrow> proto_key \<in> set (Object_keys h (Ref s)) \<or> \<not> standard_Object_prototype h
         | Inr (m, h1) \<Rightarrow> Record_isRecord h1 m"
    proof (cases "Record h (Ref s)")
      case (Inl e)
      then show ?thesis using Record_returns [OF s] by auto
    next
      case (Inr r)
      obtain m h1 where r: "r = (m, h1)" by (cases r)
      have "m = Ref (next_addr h)" "cls (objs h1 (next_addr h)) = OrdinaryObj"
        "frozen (objs h1 (next_addr h))"
        using Record_result [OF s Inr [unfolded r]] by simp_all
      then show ?thesis
        by (simp add: Inr r Record_isRecord_def loosely_null_def typeof_def Object_isFrozen_def)
    qed
  qed
  have c3: "case Tuple h vs of (t, h1) \<Rightarrow> Record_isRecord h1 t"
    by (simp add: Tuple_def new_array_result Object_freeze_def Record_isRecord_def
        loosely_null_def typeof_def Object_isFrozen_def)
  have c4: "case object_literal h ps of (p, h1) \<Rightarrow> \<not> Record_isRecord h1 p"
    using Object_fromEntries_result [of h ps]
    by (cases "Object_fromEntries h ps")
      (simp add: object_literal_def Record_isRecord_def Object_isFrozen_def)
  from c1 c2 c3 c4 show ?thesis by blast
qed

text \<open>
  True of \<^verbatim>\<open>Record({a: 1, b: 2})\<close> and of \<^verbatim>\<open>Tuple.of(1, 2)\<close>, false of the literal
  \<^verbatim>\<open>{a: 1, b: 2}\<close> and of a frozen function.
\<close>

theorem isRecord_frozen_object_witness:
  "Record one_object (Ref 3) = Inr (Ref 4, recorded_object)
   \<and> Record_isRecord recorded_object (Ref 4)
   \<and> \<not> Record_isRecord one_object (Ref 3)
   \<and> Record_isRecord two_tuples (Ref 3)
   \<and> \<not> Record_isRecord frozen_function (Ref 3)"
proof -
  let ?ps = "[(Name ''a'', Number (Fin 1)), (Name ''b'', Number (Fin 2))]"
  have a: "3 < next_addr one_object" by (simp add: one_object_def build_defs)
  have r: "Record one_object (Ref 3) = Inr (Ref 4, recorded_object)"
    by (simp add: recorded_object_def one_object_def build_defs)
  have l: "object_literal realm ?ps = (Ref 3, one_object)"
    by (simp add: one_object_def build_defs)
  have t: "cls (objs two_tuples 3) \<noteq> FunctionObj \<and> frozen (objs two_tuples 3)"
    by (simp add: two_tuples_def build_defs)
  have f: "cls (objs frozen_function 3) = FunctionObj"
    by (simp add: frozen_function_def build_defs)
  have "Record_isRecord recorded_object (Ref 4)"
    using isRecord_frozen_object [where h = one_object and s = 3] a
    unfolding r sum.case prod.case by blast
  moreover have "\<not> Record_isRecord one_object (Ref 3)"
    using isRecord_frozen_object [where h = realm and ps = ?ps] unfolding l prod.case by blast
  moreover have "Record_isRecord two_tuples (Ref 3)"
    using isRecord_frozen_object [where h = two_tuples and v = "Ref 3"] t by blast
  moreover have "\<not> Record_isRecord frozen_function (Ref 3)"
    using isRecord_frozen_object [where h = frozen_function and v = "Ref 3"] f by blast
  ultimately show ?thesis using r by blast
qed

text \<open>
  A frozen function is not null, is not a primitive and is frozen, and
  \<^verbatim>\<open>Record.isRecord\<close> is false of it: its \<^verbatim>\<open>typeof\<close> is \<^verbatim>\<open>"function"\<close>.
\<close>

theorem isRecord_frozen_function_counterexample:
  "Ref 3 \<noteq> Null \<and> \<not> is_primitive (Ref 3) \<and> Object_isFrozen frozen_function (Ref 3)
   \<and> typeof frozen_function (Ref 3) = ''function''
   \<and> \<not> Record_isRecord frozen_function (Ref 3)"
  by (simp add: frozen_function_def build_defs is_primitive_def Object_isFrozen_def
      Record_isRecord_def typeof_def)

text \<open>
  C7. \<^verbatim>\<open>Record.fromEntries(entries)\<close> returns a fresh frozen object. Its keys are
  exactly the keys that occur in the pairs, each once, and the value of a key is the
  value of the last pair with that key.
\<close>

theorem fromEntries_last_write_wins:
  "case Record_fromEntries h entries of (r, h1) \<Rightarrow>
     r = Ref (next_addr h)
     \<and> Object_isFrozen h1 r \<and> Record_isRecord h1 r
     \<and> set (Object_keys h1 r) = fst ` set entries
     \<and> distinct (Object_keys h1 r)
     \<and> (\<forall>es1 k v es2. entries = es1 @ (k, v) # es2 \<and> k \<notin> fst ` set es2
           \<longrightarrow> get h1 r k = v)"
proof -
  let ?t = "next_addr h"
  obtain h' where fe: "Object_fromEntries h entries = (Ref ?t, h')"
    using Object_fromEntries_result [of h entries] by (cases "Object_fromEntries h entries") auto
  have r: "props (objs h' ?t) = foldl (\<lambda>ps (k, v). define_prop k v ps) [] entries"
    "cls (objs h' ?t) = OrdinaryObj"
    using Object_fromEntries_result [of h entries] fe by simp_all
  let ?h1 = "h'\<lparr>objs := (objs h')(?t := (objs h' ?t)\<lparr>frozen := True\<rparr>)\<rparr>"
  have rf: "Record_fromEntries h entries = (Ref ?t, ?h1)"
    by (simp add: Record_fromEntries_def fe Object_freeze_def)
  have keys: "Object_keys ?h1 (Ref ?t)
      = map fst (foldl (\<lambda>ps (k, v). define_prop k v ps) [] entries)"
    by (simp add: Object_keys_def r)
  have c1: "set (Object_keys ?h1 (Ref ?t)) = fst ` set entries"
    unfolding keys using keys_fill [of "[]" entries] by simp
  have c2: "distinct (Object_keys ?h1 (Ref ?t))"
    unfolding keys by (rule distinct_fill) simp
  have c3: "\<forall>es1 k v es2. entries = es1 @ (k, v) # es2 \<and> k \<notin> fst ` set es2
           \<longrightarrow> get ?h1 (Ref ?t) k = v"
    by (auto simp: get_def r fill_untouched map_of_define_prop)
  have c4: "Object_isFrozen ?h1 (Ref ?t)" "Record_isRecord ?h1 (Ref ?t)"
    by (simp_all add: Object_isFrozen_def Record_isRecord_def loosely_null_def typeof_def r)
  show ?thesis using c1 c2 c3 c4 by (simp add: rf)
qed

text \<open>
  From the pairs \<^verbatim>\<open>["a", 1], ["b", 2], ["a", 3]\<close>: the keys are \<^verbatim>\<open>a\<close> and \<^verbatim>\<open>b\<close>, and
  \<^verbatim>\<open>a\<close> holds \<^verbatim>\<open>3\<close>.
\<close>

theorem fromEntries_last_write_wins_witness:
  "set (Object_keys
          (snd (Record_fromEntries realm
             [(Name ''a'', Number (Fin 1)), (Name ''b'', Number (Fin 2)),
              (Name ''a'', Number (Fin 3))]))
          (Ref (next_addr realm))) = {Name ''a'', Name ''b''}
   \<and> get (snd (Record_fromEntries realm
             [(Name ''a'', Number (Fin 1)), (Name ''b'', Number (Fin 2)),
              (Name ''a'', Number (Fin 3))]))
          (Ref (next_addr realm)) (Name ''a'') = Number (Fin 3)"
proof -
  let ?es = "[(Name ''a'', Number (Fin 1)), (Name ''b'', Number (Fin 2)),
              (Name ''a'', Number (Fin 3))]"
  have split: "?es = [(Name ''a'', Number (Fin 1)), (Name ''b'', Number (Fin 2))]
      @ (Name ''a'', Number (Fin 3)) # [] \<and> Name ''a'' \<notin> fst ` set []"
    by simp
  obtain r h1 where rf: "Record_fromEntries realm ?es = (r, h1)"
    by (cases "Record_fromEntries realm ?es")
  have c: "r = Ref (next_addr realm)
     \<and> Object_isFrozen h1 r \<and> Record_isRecord h1 r
     \<and> set (Object_keys h1 r) = fst ` set ?es
     \<and> distinct (Object_keys h1 r)
     \<and> (\<forall>es1 k v es2. ?es = es1 @ (k, v) # es2 \<and> k \<notin> fst ` set es2
           \<longrightarrow> get h1 r k = v)"
    using fromEntries_last_write_wins [of realm ?es] unfolding rf prod.case .
  have "get h1 r (Name ''a'') = Number (Fin 3)" using c split by blast
  moreover have "set (Object_keys h1 r) = {Name ''a'', Name ''b''}" using c by auto
  moreover have "r = Ref (next_addr realm)" using c by blast
  ultimately show ?thesis using rf by simp
qed

text \<open>
  C8. \<^verbatim>\<open>Record(O)\<close> copies on create. For an object \<open>O\<close> of the heap, the result
  \<open>M\<close> is a fresh object, different from \<open>O\<close>, and it is frozen. Whatever list of
  assignments and deletions is then applied to \<open>O\<close>, the object \<open>M\<close> is unchanged: it
  has the own keys and values it had when it was created, and it is still frozen. The
  same assignments and deletions applied to \<open>M\<close> itself are rejected. What \<open>M\<close> holds
  from its creation on are the keys and values that \<open>O\<close> had then (an object has each
  of its keys once), but for the key \<^verbatim>\<open>__proto__\<close>: assigning it to the copy runs the
  setter of the copy and leaves no property. The call has a result unless an
  assignment to the copy is rejected, which takes an own key \<^verbatim>\<open>__proto__\<close> of \<open>O\<close> or
  an \<^verbatim>\<open>Object.prototype\<close> that the program has changed.
\<close>

theorem Record_copies_on_create:
  assumes "s < next_addr h"
  shows "case Record h (Ref s) of
      Inl e \<Rightarrow> proto_key \<in> set (Object_keys h (Ref s)) \<or> \<not> standard_Object_prototype h
    | Inr (m, h1) \<Rightarrow>
        m = Ref (next_addr h) \<and> m \<noteq> Ref s
        \<and> objs (mutate_all h1 s ms) (next_addr h) = objs h1 (next_addr h)
        \<and> (\<forall>k. get (mutate_all h1 s ms) m k = get h1 m k)
        \<and> Object_keys (mutate_all h1 s ms) m = Object_keys h1 m
        \<and> Object_isFrozen h1 m
        \<and> Object_isFrozen (mutate_all h1 s ms) m
        \<and> mutate_all h1 (next_addr h) ms = h1
        \<and> (distinct (Object_keys h (Ref s))
             \<and> (standard_Object_prototype h \<or> proto_key \<notin> set (Object_keys h (Ref s))) \<longrightarrow>
             set (Object_keys h1 m) = set (Object_keys h (Ref s)) - {proto_key}
             \<and> (\<forall>k. k \<noteq> proto_key \<longrightarrow> get h1 m k = get h (Ref s) k)
             \<and> set (Object_keys (mutate_all h1 s ms) m)
                 = set (Object_keys h (Ref s)) - {proto_key}
             \<and> (\<forall>k. k \<noteq> proto_key \<longrightarrow> get (mutate_all h1 s ms) m k = get h (Ref s) k))"
proof (cases "Record h (Ref s)")
  case (Inl e)
  then show ?thesis using Record_returns [OF assms] by auto
next
  case (Inr res)
  let ?t = "next_addr h"
  obtain m h1 where res: "res = (m, h1)" by (cases res)
  have r: "Record h (Ref s) = Inr (Ref ?t, h1)"
    and fr: "frozen (objs h1 ?t)"
    and m: "distinct (map fst (props (objs h s)))
          \<and> (standard_Object_prototype h \<or> proto_key \<notin> fst ` set (props (objs h s))) \<longrightarrow>
          map_of (props (objs h1 ?t)) = (map_of (props (objs h s)))(proto_key := None)"
    using Record_result [OF assms Inr [unfolded res]] Inr res by simp_all
  have st: "?t \<noteq> s" using assms by simp
  have keep: "objs (mutate_all h1 s ms) ?t = objs h1 ?t"
    using st by (rule mutate_all_other)
  have g: "\<forall>k. get (mutate_all h1 s ms) (Ref ?t) k = get h1 (Ref ?t) k"
    by (simp add: get_def keep)
  have k: "Object_keys (mutate_all h1 s ms) (Ref ?t) = Object_keys h1 (Ref ?t)"
    by (simp add: Object_keys_def keep)
  have f: "Object_isFrozen h1 (Ref ?t)" using fr by (simp add: Object_isFrozen_def)
  have f': "Object_isFrozen (mutate_all h1 s ms) (Ref ?t)"
    using fr by (simp add: Object_isFrozen_def keep)
  have rej: "mutate_all h1 ?t ms = h1" using fr by (rule mutate_all_frozen)
  have copy: "distinct (Object_keys h (Ref s))
          \<and> (standard_Object_prototype h \<or> proto_key \<notin> set (Object_keys h (Ref s))) \<longrightarrow>
          set (Object_keys h1 (Ref ?t)) = set (Object_keys h (Ref s)) - {proto_key}
          \<and> (\<forall>k. k \<noteq> proto_key \<longrightarrow> get h1 (Ref ?t) k = get h (Ref s) k)"
  proof
    assume "distinct (Object_keys h (Ref s))
          \<and> (standard_Object_prototype h \<or> proto_key \<notin> set (Object_keys h (Ref s)))"
    then have eq: "map_of (props (objs h1 ?t)) = (map_of (props (objs h s)))(proto_key := None)"
      using m by (simp add: Object_keys_def)
    have "dom (map_of (props (objs h1 ?t))) = dom (map_of (props (objs h s))) - {proto_key}"
      unfolding eq by simp
    then have "fst ` set (props (objs h1 ?t)) = fst ` set (props (objs h s)) - {proto_key}"
      by (simp add: dom_map_of_conv_image_fst)
    then have "set (Object_keys h1 (Ref ?t)) = set (Object_keys h (Ref s)) - {proto_key}"
      by (simp add: Object_keys_def)
    moreover have "\<forall>k. k \<noteq> proto_key \<longrightarrow> get h1 (Ref ?t) k = get h (Ref s) k"
      by (simp add: get_def eq)
    ultimately show "set (Object_keys h1 (Ref ?t)) = set (Object_keys h (Ref s)) - {proto_key}
          \<and> (\<forall>k. k \<noteq> proto_key \<longrightarrow> get h1 (Ref ?t) k = get h (Ref s) k)"
      by blast
  qed
  have copy': "distinct (Object_keys h (Ref s))
          \<and> (standard_Object_prototype h \<or> proto_key \<notin> set (Object_keys h (Ref s))) \<longrightarrow>
          set (Object_keys h1 (Ref ?t)) = set (Object_keys h (Ref s)) - {proto_key}
          \<and> (\<forall>k. k \<noteq> proto_key \<longrightarrow> get h1 (Ref ?t) k = get h (Ref s) k)
          \<and> set (Object_keys (mutate_all h1 s ms) (Ref ?t))
              = set (Object_keys h (Ref s)) - {proto_key}
          \<and> (\<forall>k. k \<noteq> proto_key \<longrightarrow> get (mutate_all h1 s ms) (Ref ?t) k = get h (Ref s) k)"
    using copy g k by simp
  show ?thesis unfolding r sum.case prod.case using st keep g k f f' rej copy' by blast
qed

text \<open>
  After \<^verbatim>\<open>M = Record(O)\<close> for \<^verbatim>\<open>O = {a: 1, b: 2}\<close> and then \<^verbatim>\<open>O.c = null\<close>,
  \<^verbatim>\<open>delete O.a\<close>, \<^verbatim>\<open>O.b = 5\<close>: \<open>M\<close> still holds \<^verbatim>\<open>a: 1\<close> and \<^verbatim>\<open>b: 2\<close>, while \<open>O\<close>
  has lost \<^verbatim>\<open>a\<close> and holds \<^verbatim>\<open>b: 5\<close>. For the parsed object with the own keys
  \<^verbatim>\<open>__proto__\<close> and \<^verbatim>\<open>a\<close>, the record has the key \<^verbatim>\<open>a\<close> only, before and after
  \<^verbatim>\<open>delete O.a\<close>.
\<close>

theorem Record_copies_on_create_witness:
  "Record one_object (Ref 3) = Inr (Ref 4, recorded_object)
   \<and> get (mutate_all recorded_object 3
          [Assign (Name ''c'') Null, Delete (Name ''a''), Assign (Name ''b'') (Number (Fin 5))])
       (Ref 4) (Name ''a'') = Number (Fin 1)
   \<and> get (mutate_all recorded_object 3
          [Assign (Name ''c'') Null, Delete (Name ''a''), Assign (Name ''b'') (Number (Fin 5))])
       (Ref 4) (Name ''b'') = Number (Fin 2)
   \<and> get (mutate_all recorded_object 3
          [Assign (Name ''c'') Null, Delete (Name ''a''), Assign (Name ''b'') (Number (Fin 5))])
       (Ref 3) (Name ''a'') = Undefined
   \<and> get (mutate_all recorded_object 3
          [Assign (Name ''c'') Null, Delete (Name ''a''), Assign (Name ''b'') (Number (Fin 5))])
       (Ref 3) (Name ''b'') = Number (Fin 5)
   \<and> Object_keys parsed_object (Ref 3) = [proto_key, Name ''a'']
   \<and> Record parsed_object (Ref 3) = Inr (Ref 4, recorded_parsed_object)
   \<and> set (Object_keys recorded_parsed_object (Ref 4)) = {Name ''a''}
   \<and> set (Object_keys (mutate_all recorded_parsed_object 3 [Delete (Name ''a'')]) (Ref 4))
       = {Name ''a''}
   \<and> Object_keys (mutate_all recorded_parsed_object 3 [Delete (Name ''a'')]) (Ref 3)
       = [proto_key]"
proof -
  let ?ms = "[Assign (Name ''c'') Null, Delete (Name ''a''), Assign (Name ''b'') (Number (Fin 5))]"
  have a: "3 < next_addr one_object"
    by (simp add: one_object_def build_defs)
  have r: "Record one_object (Ref 3) = Inr (Ref 4, recorded_object)"
    by (simp add: recorded_object_def one_object_def build_defs)
  have d: "distinct (Object_keys one_object (Ref 3))"
    "proto_key \<notin> set (Object_keys one_object (Ref 3))"
    by (simp_all add: one_object_def build_defs)
  have c: "\<forall>k. k \<noteq> proto_key \<longrightarrow>
      get (mutate_all recorded_object 3 ?ms) (Ref 4) k = get one_object (Ref 3) k"
    using Record_copies_on_create [OF a, of ?ms] d unfolding r sum.case prod.case by blast
  have src: "get one_object (Ref 3) (Name ''a'') = Number (Fin 1)"
    "get one_object (Ref 3) (Name ''b'') = Number (Fin 2)"
    by (simp_all add: one_object_def build_defs)
  have kept: "get (mutate_all recorded_object 3 ?ms) (Ref 4) (Name ''a'') = Number (Fin 1)"
    "get (mutate_all recorded_object 3 ?ms) (Ref 4) (Name ''b'') = Number (Fin 2)"
    using c src by (auto simp: proto_key_def)
  have changed: "get (mutate_all recorded_object 3 ?ms) (Ref 3) (Name ''a'') = Undefined"
    "get (mutate_all recorded_object 3 ?ms) (Ref 3) (Name ''b'') = Number (Fin 5)"
    by (simp_all add: recorded_object_def one_object_def build_defs mutate_all_def
        delete_property_def)
  have a': "3 < next_addr parsed_object"
    by (simp add: parsed_object_def build_defs)
  have keys: "Object_keys parsed_object (Ref 3) = [proto_key, Name ''a'']"
    by (simp add: parsed_object_def build_defs)
  have d': "distinct (Object_keys parsed_object (Ref 3))"
    by (simp add: keys proto_key_def)
  have std: "standard_Object_prototype parsed_object"
    by (simp add: standard_Object_prototype_def parsed_object_def build_defs)
  have r': "Record parsed_object (Ref 3) = Inr (Ref 4, recorded_parsed_object)"
    by (simp add: recorded_parsed_object_def parsed_object_def build_defs set_prototype_def)
  have c': "set (Object_keys recorded_parsed_object (Ref 4))
         = set (Object_keys parsed_object (Ref 3)) - {proto_key}
     \<and> set (Object_keys (mutate_all recorded_parsed_object 3 [Delete (Name ''a'')]) (Ref 4))
         = set (Object_keys parsed_object (Ref 3)) - {proto_key}"
    using Record_copies_on_create [OF a', of "[Delete (Name ''a'')]"] d' std
    unfolding r' sum.case prod.case by blast
  have copy: "set (Object_keys recorded_parsed_object (Ref 4)) = {Name ''a''}"
    "set (Object_keys (mutate_all recorded_parsed_object 3 [Delete (Name ''a'')]) (Ref 4))
       = {Name ''a''}"
    using c' by (auto simp: keys proto_key_def)
  have source: "Object_keys (mutate_all recorded_parsed_object 3 [Delete (Name ''a'')]) (Ref 3)
      = [proto_key]"
    by (simp add: recorded_parsed_object_def parsed_object_def build_defs mutate_all_def
        delete_property_def set_prototype_def)
  show ?thesis using r kept changed keys r' copy source by simp
qed

text \<open>
  C9. For every list of values \<open>vs\<close>, \<^verbatim>\<open>Tuple.toArray(Tuple(...vs))\<close> is a new
  array: its address is not allocated before the call and differs from the tuple's;
  it is not frozen (the tuple is); it has the length of \<open>vs\<close> and holds the very
  values of \<open>vs\<close>, in order. The copy is shallow: a reference among the values is
  copied as that reference, and no object that existed before is changed, so nested
  containers are shared with the source.
\<close>

theorem toArray_of_Tuple:
  "case Tuple h vs of (t, h1) \<Rightarrow>
   case Tuple_toArray h1 t of (r, h2) \<Rightarrow>
     t = Ref (next_addr h) \<and> r = Ref (next_addr h1) \<and> r \<noteq> t
     \<and> Array_isArray h2 r \<and> \<not> Object_isFrozen h2 r \<and> Object_isFrozen h2 t
     \<and> length_of h2 r = length vs
     \<and> map (\<lambda>i. get h2 r (Index i)) [0 ..< length vs] = vs
     \<and> (\<forall>a. a < next_addr h \<longrightarrow> objs h2 a = objs h a)
     \<and> objs h2 (next_addr h) = objs h1 (next_addr h)"
proof -
  define t where "t = next_addr h"
  define arr where "arr = \<lparr>cls = ArrayObj, proto = Some Array_prototype, len = length vs,
           props = map (\<lambda>i. (Index i, vs ! i)) [0 ..< length vs], frozen = False\<rparr>"
  define h1 where "h1 = h\<lparr>objs := (objs h)(t := arr\<lparr>frozen := True\<rparr>), next_addr := Suc t\<rparr>"
  have tu: "Tuple h vs = (Ref t, h1)"
    by (simp add: Tuple_def new_array_result Object_freeze_def t_def arr_def h1_def)
  have elems: "map (\<lambda>i. get h1 (Ref t) (Index i)) [0 ..< length_of h1 (Ref t)] = vs"
    by (rule nth_equalityI) (simp_all add: get_def length_of_def h1_def arr_def map_of_indexed)
  define copy where "copy = \<lparr>cls = ArrayObj, proto = Some Array_prototype, len = length vs,
           props = map (\<lambda>i. (Index i, vs ! i)) [0 ..< length vs], frozen = False\<rparr>"
  define h2 where "h2 = h1\<lparr>objs := (objs h1)(Suc t := copy), next_addr := Suc (Suc t)\<rparr>"
  have ta: "Tuple_toArray h1 (Ref t) = (Ref (Suc t), h2)"
    unfolding Tuple_toArray_def Array_from_def elems
    by (simp add: new_array_result h2_def copy_def h1_def)
  have n1: "next_addr h1 = Suc t" by (simp add: h1_def)
  have "map (\<lambda>i. get h2 (Ref (Suc t)) (Index i)) [0 ..< length vs] = vs"
    by (rule nth_equalityI) (simp_all add: get_def h2_def copy_def map_of_indexed)
  moreover have "Array_isArray h2 (Ref (Suc t))" "\<not> Object_isFrozen h2 (Ref (Suc t))"
    "Object_isFrozen h2 (Ref t)" "length_of h2 (Ref (Suc t)) = length vs"
    by (simp_all add: heap_evals h2_def copy_def h1_def)
  moreover have "\<forall>a. a < t \<longrightarrow> objs h2 a = objs h a"
    by (simp add: h2_def h1_def)
  moreover have "objs h2 t = objs h1 t" by (simp add: h2_def)
  ultimately show ?thesis unfolding tu prod.case ta n1 t_def [symmetric] by simp
qed

text \<open>
  With the array \<^verbatim>\<open>[7]\<close> at address \<open>3\<close>: the copy of \<^verbatim>\<open>Tuple(1, [7])\<close> holds the
  reference \<open>3\<close> at index \<open>1\<close>, is not frozen, and the array at \<open>3\<close> is unchanged.
\<close>

theorem toArray_of_Tuple_witness:
  "get (snd (Tuple_toArray (snd (Tuple nested_heap [Number (Fin 1), Ref 3])) (Ref 4)))
      (Ref 5) (Index 1) = Ref 3
   \<and> \<not> Object_isFrozen
        (snd (Tuple_toArray (snd (Tuple nested_heap [Number (Fin 1), Ref 3])) (Ref 4))) (Ref 5)
   \<and> objs (snd (Tuple_toArray (snd (Tuple nested_heap [Number (Fin 1), Ref 3])) (Ref 4))) 3
       = objs nested_heap 3"
proof -
  let ?vs = "[Number (Fin 1), Ref 3]"
  have n: "next_addr nested_heap = 4" by (simp add: nested_heap_def build_defs)
  obtain t h1 where tu: "Tuple nested_heap ?vs = (t, h1)" by (cases "Tuple nested_heap ?vs")
  obtain r h2 where ta: "Tuple_toArray h1 t = (r, h2)" by (cases "Tuple_toArray h1 t")
  have c: "t = Ref (next_addr nested_heap) \<and> r = Ref (next_addr h1) \<and> r \<noteq> t
     \<and> Array_isArray h2 r \<and> \<not> Object_isFrozen h2 r \<and> Object_isFrozen h2 t
     \<and> length_of h2 r = length ?vs
     \<and> map (\<lambda>i. get h2 r (Index i)) [0 ..< length ?vs] = ?vs
     \<and> (\<forall>a. a < next_addr nested_heap \<longrightarrow> objs h2 a = objs nested_heap a)
     \<and> objs h2 (next_addr nested_heap) = objs h1 (next_addr nested_heap)"
    using toArray_of_Tuple [of nested_heap ?vs] unfolding tu prod.case ta .
  have n1: "next_addr h1 = 5" using tu by (auto simp: Tuple_def new_array_result Object_freeze_def n)
  have t: "t = Ref 4" and r: "r = Ref 5" using c n n1 by simp_all
  have "get h2 (Ref 5) (Index 1) = Ref 3" using c r by (simp add: upt_rec)
  moreover have "\<not> Object_isFrozen h2 (Ref 5)" using c r by simp
  moreover have "objs h2 3 = objs nested_heap 3" using c n by simp
  ultimately show ?thesis using tu ta t by simp
qed

text \<open>
  C10. \<^verbatim>\<open>isEqual\<close> is symmetric on non-cyclic values: \<^verbatim>\<open>isEqual(x, y)\<close> and
  \<^verbatim>\<open>isEqual(y, x)\<close> return the same boolean (an object has each of its keys once).
\<close>

theorem isEqual_symmetric:
  assumes "distinct_keys h" and "depth_le d h x" and "depth_le e h y" and "min d e < fuel"
  shows "\<exists>b. Tuple_isEqual fuel h x y = Some b \<and> Tuple_isEqual fuel h y x = Some b"
proof -
  have d: "depth_le (min d e) h x \<or> depth_le (min d e) h y"
    using assms(2,3) by (cases "d \<le> e") (simp_all add: min_def)
  then obtain b where b: "isEqual_inner (Suc (min d e)) h x y = Some b"
    using isEqual_inner_total by blast
  have "isEqual_inner fuel h x y = Some b"
    using fuel_mono [OF b] assms(4) by simp
  moreover have "isEqual_inner fuel h x y = isEqual_inner fuel h y x"
    by (rule sym_result [OF assms(1) d assms(4)])
  ultimately show ?thesis unfolding Tuple_isEqual_def by simp
qed

text \<open>
  The two tuples of the unit test, in both orders.
\<close>

theorem isEqual_symmetric_witness:
  "\<exists>b. Tuple_isEqual 3 (snd (snd unit_test)) (Ref 4) (Ref 7) = Some b
      \<and> Tuple_isEqual 3 (snd (snd unit_test)) (Ref 7) (Ref 4) = Some b"
proof -
  have dk: "distinct_keys (snd (snd unit_test))"
    by (simp add: unit_test_eval distinct_keys_def realm_def blank_def)
  have d: "depth_le 2 (snd (snd unit_test)) (Ref 4)" "depth_le 2 (snd (snd unit_test)) (Ref 7)"
    by (simp_all add: unit_test_eval numeral_2_eq_2)
  show ?thesis using isEqual_symmetric [OF dk d, of 3] by simp
qed

end
